theory Spec2Isabelle
  imports
    Main
    "HOL-Library.Sublist"
    "HOL-Library.Product_Lexorder"
    "HOL-Library.List_Lexorder"
    "HOL-Library.Char_ord"
begin

section \<open>Bottleneck travelling salesman: three exhaustive searches\<close>

text \<open>
  The repository holds three Python programs that search for a round trip through all
  cities minimising the longest single jump: \<^verbatim>\<open>BFSHomework.py\<close> (a FIFO queue),
  \<^verbatim>\<open>Least_Cost__Uniform_cost__Search.py\<close> (a heap keyed by the longest jump so far) and
  \<^verbatim>\<open>A_Search.py\<close> (a heap keyed by an accumulated estimate). Cities are values of any
  linearly ordered type (Python strings), distances are Python integers, the distance
  dictionary is a map from pairs of cities to integers.
\<close>

subsection \<open>Data\<close>

datatype error = IndexError | KeyError

type_synonym 'a table = "'a \<times> 'a \<Rightarrow> int option"

type_synonym 'a best = "'a list option \<times> int"

text \<open>\<^verbatim>\<open>sys.maxsize\<close> of a 64-bit CPython, the initial value of \<^verbatim>\<open>min_max_jump\<close>.\<close>

definition maxsize :: int where
  "maxsize = 9223372036854775807"

text \<open>What one pass through the body of a \<^verbatim>\<open>while\<close> loop does.\<close>

datatype ('c, 'r) outcome = Continue 'c | Return 'r | Raise error

text \<open>
  The \<^verbatim>\<open>while\<close> loop: the body is run until it returns or raises. A loop that runs
  forever has the value \<open>None\<close>.
\<close>

partial_function (option) run :: "('c \<Rightarrow> ('c, 'r) outcome) \<Rightarrow> 'c \<Rightarrow> (error + 'r) option" where
  "run body c =
     (case body c of
        Continue c' \<Rightarrow> run body c'
      | Return r \<Rightarrow> Some (Inr r)
      | Raise e \<Rightarrow> Some (Inl e))"

declare run.simps [code]

text \<open>The configurations the loop passes through, starting from \<open>c0\<close>.\<close>

inductive reaches :: "('c \<Rightarrow> ('c, 'r) outcome) \<Rightarrow> 'c \<Rightarrow> 'c \<Rightarrow> bool"
  for body :: "'c \<Rightarrow> ('c, 'r) outcome" and c0 :: 'c where
  reaches_start: "reaches body c0 c0"
| reaches_step: "reaches body c0 c \<Longrightarrow> body c = Continue c' \<Longrightarrow> reaches body c0 c'"

subsection \<open>\<^verbatim>\<open>load_city_distances\<close> (the same in the three files)\<close>

text \<open>
  \<^verbatim>\<open>for i, origin in enumerate(city_names): for j, destination in enumerate(city_names):
  distances[(origin, destination)] = distance_matrix[i][j]\<close>. Reading a row or a column
  that the matrix does not have raises \<^verbatim>\<open>IndexError\<close>; nothing else is checked.
\<close>

fun load_inner :: "int list list \<Rightarrow> nat \<Rightarrow> 'a \<Rightarrow> nat \<Rightarrow> 'a list \<Rightarrow> 'a table \<Rightarrow> error + 'a table" where
  "load_inner distance_matrix i origin j [] distances = Inr distances"
| "load_inner distance_matrix i origin j (destination # rest) distances =
     (if i < length distance_matrix \<and> j < length (distance_matrix ! i)
      then load_inner distance_matrix i origin (Suc j) rest
             (distances((origin, destination) \<mapsto> distance_matrix ! i ! j))
      else Inl IndexError)"

fun load_outer :: "int list list \<Rightarrow> 'a list \<Rightarrow> nat \<Rightarrow> 'a list \<Rightarrow> 'a table \<Rightarrow> error + 'a table" where
  "load_outer distance_matrix city_names i [] distances = Inr distances"
| "load_outer distance_matrix city_names i (origin # rest) distances =
     (case load_inner distance_matrix i origin 0 city_names distances of
        Inl e \<Rightarrow> Inl e
      | Inr distances' \<Rightarrow> load_outer distance_matrix city_names (Suc i) rest distances')"

definition load_city_distances :: "'a list \<Rightarrow> int list list \<Rightarrow> error + 'a table" where
  "load_city_distances city_names distance_matrix =
     load_outer distance_matrix city_names 0 city_names Map.empty"

subsection \<open>Breadth-first search: \<^verbatim>\<open>bfs_tsp\<close>\<close>

text \<open>A queue entry is \<^verbatim>\<open>(current city, path taken, max jump in path)\<close>.\<close>

type_synonym 'a bfs_entry = "'a \<times> 'a list \<times> int"

text \<open>
  The \<^verbatim>\<open>for next_city in cities\<close> loop of one expansion: the entries it appends to the
  queue, in order, or the exception it raises. \<^verbatim>\<open>path[0]\<close> in the first test is only
  evaluated when \<^verbatim>\<open>next_city\<close> is in \<^verbatim>\<open>path\<close>, so the path is not empty there;
  in the second test it is evaluated always, and raises on an empty path.
\<close>

fun bfs_expand :: "'a list \<Rightarrow> 'a table \<Rightarrow> 'a bfs_entry \<Rightarrow> 'a list \<Rightarrow> error + 'a bfs_entry list" where
  "bfs_expand cities distances (current_city, path, max_jump) [] = Inr []"
| "bfs_expand cities distances (current_city, path, max_jump) (next_city # rest) =
     (if next_city \<notin> set path \<or> (next_city = hd path \<and> length (remdups path) = length cities)
      then
        (case distances (current_city, next_city) of
           None \<Rightarrow> Inl KeyError
         | Some new_jump \<Rightarrow>
             (case path of
                [] \<Rightarrow> Inl IndexError
              | start # _ \<Rightarrow>
                  if \<not> (next_city = start \<and> length (remdups path) < length cities)
                  then
                    (case bfs_expand cities distances (current_city, path, max_jump) rest of
                       Inl e \<Rightarrow> Inl e
                     | Inr new \<Rightarrow> Inr ((next_city, path @ [next_city], max max_jump new_jump) # new))
                  else bfs_expand cities distances (current_city, path, max_jump) rest))
      else bfs_expand cities distances (current_city, path, max_jump) rest)"

fun bfs_step :: "'a list \<Rightarrow> 'a table \<Rightarrow> 'a bfs_entry list \<times> 'a best \<Rightarrow>
    ('a bfs_entry list \<times> 'a best, 'a best) outcome" where
  "bfs_step cities distances ([], best) = Return best"
| "bfs_step cities distances ((current_city, path, max_jump) # queue, (best_path, min_max_jump)) =
     (if length path = length cities + 1 \<and> last path = hd path
      then Continue (queue,
             if max_jump < min_max_jump then (Some path, max_jump) else (best_path, min_max_jump))
      else
        (case bfs_expand cities distances (current_city, path, max_jump) cities of
           Inl e \<Rightarrow> Raise e
         | Inr new \<Rightarrow> Continue (queue @ new, (best_path, min_max_jump))))"

definition bfs_init :: "'a \<Rightarrow> 'a bfs_entry list \<times> 'a best" where
  "bfs_init start = ([(start, [start], 0)], (None, maxsize))"

definition bfs_tsp :: "'a list \<Rightarrow> 'a table \<Rightarrow> (error + 'a best) option" where
  "bfs_tsp cities distances =
     (case cities of
        [] \<Rightarrow> Some (Inl IndexError)
      | start # _ \<Rightarrow> run (bfs_step cities distances) (bfs_init start))"

subsection \<open>The heap of \<^verbatim>\<open>heapq\<close>\<close>

text \<open>
  \<^verbatim>\<open>heappop\<close> returns a smallest entry of the heap and \<^verbatim>\<open>heappush\<close> adds one; entries
  are tuples of integers and lists of cities, which Python compares lexicographically, and
  two entries that compare equal are the same value. So the entries popped are those of a
  list kept in ascending order: \<^verbatim>\<open>heappush\<close> inserts in order, \<^verbatim>\<open>heappop\<close> takes the head.
\<close>

definition heappush :: "'e::linorder \<Rightarrow> 'e list \<Rightarrow> 'e list" where
  "heappush item heap = insort item heap"

subsection \<open>Uniform-cost search: \<^verbatim>\<open>TSPSolver.solve\<close> of the least-cost file\<close>

text \<open>A frontier entry is \<^verbatim>\<open>(max jump in path, current path)\<close>.\<close>

type_synonym 'a ucs_entry = "int \<times> 'a list"

text \<open>
  The \<^verbatim>\<open>for next_city in self.cities\<close> loop: the entries it pushes, in order, or the
  exception. \<^verbatim>\<open>self.cities[0]\<close> is read inside a loop over \<^verbatim>\<open>self.cities\<close>, which
  is therefore not empty; \<^verbatim>\<open>current_city\<close> is \<^verbatim>\<open>path[-1]\<close> of a path that
  \<open>ucs_step\<close> has found not empty.
\<close>

fun ucs_expand :: "'a list \<Rightarrow> 'a table \<Rightarrow> 'a ucs_entry \<Rightarrow> 'a list \<Rightarrow> error + 'a ucs_entry list" where
  "ucs_expand cities distances (max_jump, path) [] = Inr []"
| "ucs_expand cities distances (max_jump, path) (next_city # rest) =
     (if next_city \<notin> set path \<or> (next_city = hd cities \<and> length (remdups path) = length cities)
      then
        (case distances (last path, next_city) of
           None \<Rightarrow> Inl KeyError
         | Some new_jump \<Rightarrow>
             if \<not> (next_city = hd cities \<and> length (remdups path) < length cities)
             then
               (case ucs_expand cities distances (max_jump, path) rest of
                  Inl e \<Rightarrow> Inl e
                | Inr new \<Rightarrow> Inr ((max max_jump new_jump, path @ [next_city]) # new))
             else ucs_expand cities distances (max_jump, path) rest)
      else ucs_expand cities distances (max_jump, path) rest)"

text \<open>
  The test \<^verbatim>\<open>len(path) > 1 and path[-1] == self.cities[0]\<close> followed by
  \<^verbatim>\<open>len(set(path[:-1])) == len(self.cities)\<close>; the \<^verbatim>\<open>continue\<close> is under both.
\<close>

definition ucs_complete :: "'a list \<Rightarrow> 'a list \<Rightarrow> error + bool" where
  "ucs_complete cities path =
     (if length path > 1
      then
        (case cities of
           [] \<Rightarrow> Inl IndexError
         | start # _ \<Rightarrow>
             Inr (last path = start \<and> length (remdups (butlast path)) = length cities))
      else Inr False)"

fun ucs_step :: "'a::linorder list \<Rightarrow> 'a table \<Rightarrow> 'a ucs_entry list \<times> 'a best \<Rightarrow>
    ('a ucs_entry list \<times> 'a best, 'a best) outcome" where
  "ucs_step cities distances ([], best) = Return best"
| "ucs_step cities distances ((max_jump, path) # frontier, (best_path, min_max_jump)) =
     (if path = [] then Raise IndexError
      else
        (case ucs_complete cities path of
           Inl e \<Rightarrow> Raise e
         | Inr True \<Rightarrow>
             Continue (frontier,
               if max_jump < min_max_jump then (Some path, max_jump) else (best_path, min_max_jump))
         | Inr False \<Rightarrow>
             (case ucs_expand cities distances (max_jump, path) cities of
                Inl e \<Rightarrow> Raise e
              | Inr new \<Rightarrow> Continue (fold heappush new frontier, (best_path, min_max_jump)))))"

definition ucs_init :: "'a::linorder \<Rightarrow> 'a ucs_entry list \<times> 'a best" where
  "ucs_init start = (heappush (0, [start]) [], (None, maxsize))"

definition ucs_solve :: "'a::linorder list \<Rightarrow> 'a table \<Rightarrow> (error + 'a best) option" where
  "ucs_solve cities distances =
     (case cities of
        [] \<Rightarrow> Some (Inl IndexError)
      | start # _ \<Rightarrow> run (ucs_step cities distances) (ucs_init start))"

subsection \<open>Informed search: \<^verbatim>\<open>TSPSolver.solve\<close> and \<^verbatim>\<open>heuristic\<close> of the A* file\<close>

text \<open>An entry of the open set is \<^verbatim>\<open>(cost, path, max_jump)\<close>.\<close>

type_synonym 'a astar_entry = "int \<times> 'a list \<times> int"

text \<open>The list comprehension of \<^verbatim>\<open>heuristic\<close>, then \<^verbatim>\<open>min(..., default=0)\<close>.\<close>

fun heuristic_distances :: "'a table \<Rightarrow> 'a \<Rightarrow> 'a list \<Rightarrow> error + int list" where
  "heuristic_distances distances current_city [] = Inr []"
| "heuristic_distances distances current_city (city # rest) =
     (if city \<noteq> current_city
      then
        (case distances (current_city, city) of
           None \<Rightarrow> Inl KeyError
         | Some w \<Rightarrow>
             (case heuristic_distances distances current_city rest of
                Inl e \<Rightarrow> Inl e
              | Inr ws \<Rightarrow> Inr (w # ws)))
      else heuristic_distances distances current_city rest)"

definition heuristic :: "'a table \<Rightarrow> 'a list \<Rightarrow> 'a \<Rightarrow> error + int" where
  "heuristic distances remaining_cities current_city =
     (case heuristic_distances distances current_city remaining_cities of
        Inl e \<Rightarrow> Inl e
      | Inr ws \<Rightarrow> Inr (if ws = [] then 0 else min_list ws))"

text \<open>The \<^verbatim>\<open>for next_city in remaining_cities\<close> loop: the entries pushed, in order.\<close>

fun astar_expand :: "'a table \<Rightarrow> 'a astar_entry \<Rightarrow> 'a list \<Rightarrow> 'a list \<Rightarrow> error + 'a astar_entry list" where
  "astar_expand distances (cost, path, max_jump) remaining_cities [] = Inr []"
| "astar_expand distances (cost, path, max_jump) remaining_cities (next_city # rest) =
     (case distances (last path, next_city) of
        None \<Rightarrow> Inl KeyError
      | Some new_jump \<Rightarrow>
          (case heuristic distances remaining_cities next_city of
             Inl e \<Rightarrow> Inl e
           | Inr h \<Rightarrow>
               (case astar_expand distances (cost, path, max_jump) remaining_cities rest of
                  Inl e \<Rightarrow> Inl e
                | Inr new \<Rightarrow>
                    Inr ((cost + new_jump + h, path @ [next_city], max max_jump new_jump) # new))))"

definition astar_remaining :: "'a list \<Rightarrow> 'a list \<Rightarrow> 'a list" where
  "astar_remaining cities path =
     filter (\<lambda>city. city \<notin> set path \<or> (city = hd path \<and> length (remdups path) = length cities))
       cities"

fun astar_step :: "'a::linorder list \<Rightarrow> 'a table \<Rightarrow> 'a astar_entry list \<times> 'a best \<Rightarrow>
    ('a astar_entry list \<times> 'a best, 'a best) outcome" where
  "astar_step cities distances ([], best) = Return best"
| "astar_step cities distances ((cost, path, max_jump) # open_set, (best_path, min_max_jump)) =
     (if path = [] then Raise IndexError
      else if length path = length cities + 1 \<and> last path = hd path
      then Continue (open_set,
             if max_jump < min_max_jump then (Some path, max_jump) else (best_path, min_max_jump))
      else
        (case astar_expand distances (cost, path, max_jump)
                (astar_remaining cities path) (astar_remaining cities path) of
           Inl e \<Rightarrow> Raise e
         | Inr new \<Rightarrow> Continue (fold heappush new open_set, (best_path, min_max_jump))))"

definition astar_init :: "'a::linorder \<Rightarrow> 'a astar_entry list \<times> 'a best" where
  "astar_init start = (heappush (0, [start], 0) [], (None, maxsize))"

definition astar_solve :: "'a::linorder list \<Rightarrow> 'a table \<Rightarrow> (error + 'a best) option" where
  "astar_solve cities distances =
     (case cities of
        [] \<Rightarrow> Some (Inl IndexError)
      | start # _ \<Rightarrow> run (astar_step cities distances) (astar_init start))"

subsection \<open>Tours and their longest jump\<close>

text \<open>The weights of the consecutive pairs of a sequence, looked up in the table.\<close>

definition jumps :: "'a table \<Rightarrow> 'a list \<Rightarrow> int list" where
  "jumps distances path = map (\<lambda>pair. the (distances pair)) (zip path (tl path))"

text \<open>The maximum edge weight among the consecutive pairs; 0 for a singleton sequence.\<close>

definition max_edge :: "'a table \<Rightarrow> 'a list \<Rightarrow> int" where
  "max_edge distances path = (if jumps distances path = [] then 0 else Max (set (jumps distances path)))"

text \<open>The value the programs carry along a path: the running maximum, started at 0.\<close>

definition running_max :: "'a table \<Rightarrow> 'a list \<Rightarrow> int" where
  "running_max distances path = fold max (jumps distances path) 0"

text \<open>
  A complete tour: a sequence through every city once that starts at the first city and
  returns to it.
\<close>

definition tour :: "'a list \<Rightarrow> 'a list \<Rightarrow> bool" where
  "tour cities t \<longleftrightarrow>
     length t = length cities + 1 \<and> distinct (butlast t) \<and> set (butlast t) = set cities \<and>
     hd t = hd cities \<and> last t = hd cities"

text \<open>The goal test in the words of the specification.\<close>

definition is_goal :: "'a list \<Rightarrow> 'a list \<Rightarrow> bool" where
  "is_goal locations seq \<longleftrightarrow>
     length seq = length locations + 1 \<and> last seq = hd seq \<and>
     distinct (take (length locations) seq) \<and> set (take (length locations) seq) = set locations"

text \<open>The table has an entry for every ordered pair of cities.\<close>

definition table_total :: "'a list \<Rightarrow> 'a table \<Rightarrow> bool" where
  "table_total cities distances \<longleftrightarrow> (\<forall>a \<in> set cities. \<forall>b \<in> set cities. distances (a, b) \<noteq> None)"

definition table_nonneg :: "'a list \<Rightarrow> 'a table \<Rightarrow> bool" where
  "table_nonneg cities distances \<longleftrightarrow>
     (\<forall>a \<in> set cities. \<forall>b \<in> set cities. \<forall>w. distances (a, b) = Some w \<longrightarrow> 0 \<le> w)"

section \<open>Invariants, measures and examples\<close>

text \<open>
  A path under construction: it starts at the first city and passes through cities of the
  list, each at most once.
\<close>

definition partial_path :: "'a list \<Rightarrow> 'a list \<Rightarrow> bool" where
  "partial_path cities p \<longleftrightarrow> p \<noteq> [] \<and> hd p = hd cities \<and> distinct p \<and> set p \<subseteq> set cities"

text \<open>The paths that the searches hold: paths under construction and complete tours.\<close>

definition valid_path :: "'a list \<Rightarrow> 'a list \<Rightarrow> bool" where
  "valid_path cities p \<longleftrightarrow> partial_path cities p \<or> tour cities p"

text \<open>
  The test on \<^verbatim>\<open>next_city\<close> in the expansion loops: not yet visited, or the start once
  every city is visited.
\<close>

definition candidate :: "'a list \<Rightarrow> 'a list \<Rightarrow> 'a \<Rightarrow> bool" where
  "candidate cities path c \<longleftrightarrow> c \<notin> set path \<or> (c = hd path \<and> length (remdups path) = length cities)"

text \<open>
  The record of the best tour: still the initial one, or a tour with its value, below
  \<^verbatim>\<open>sys.maxsize\<close>.
\<close>

definition best_ok :: "'a list \<Rightarrow> 'a table \<Rightarrow> 'a best \<Rightarrow> bool" where
  "best_ok cities d best \<longleftrightarrow>
     best = (None, maxsize) \<or>
     (\<exists>p. best = (Some p, running_max d p) \<and> tour cities p \<and> running_max d p < maxsize)"

text \<open>Every pending (path, value) pair is a valid path with the running maximum of its jumps.\<close>

definition pending_ok :: "'a list \<Rightarrow> 'a table \<Rightarrow> ('a list \<times> int) set \<Rightarrow> bool" where
  "pending_ok cities d A \<longleftrightarrow> (\<forall>(p, mj) \<in> A. valid_path cities p \<and> mj = running_max d p)"

text \<open>
  Every tour is accounted for: the best value is already at most its value, or a pending path
  is a prefix of it.
\<close>

definition covered :: "'a list \<Rightarrow> 'a table \<Rightarrow> ('a list \<times> int) set \<Rightarrow> 'a best \<Rightarrow> bool" where
  "covered cities d A best \<longleftrightarrow>
     (\<forall>t. tour cities t \<longrightarrow> snd best \<le> running_max d t \<or> (\<exists>(p, mj) \<in> A. prefix p t))"

text \<open>The invariant of the three loops, on the set of pending (path, value) pairs.\<close>

definition search_inv :: "'a list \<Rightarrow> 'a table \<Rightarrow> ('a list \<times> int) set \<Rightarrow> 'a best \<Rightarrow> bool" where
  "search_inv cities d A best \<longleftrightarrow>
     cities \<noteq> [] \<and> pending_ok cities d A \<and> best_ok cities d best \<and> covered cities d A best"

text \<open>The (path, value) pairs that one expansion adds.\<close>

definition succs :: "'a list \<Rightarrow> 'a table \<Rightarrow> 'a list \<Rightarrow> int \<Rightarrow> ('a list \<times> int) list" where
  "succs cities d p mj =
     map (\<lambda>c. (p @ [c], max mj (the (d (last p, c))))) (filter (candidate cities p) cities)"

text \<open>The update of the best record by a complete path: only a strictly smaller value replaces it.\<close>

definition record_best :: "'a best \<Rightarrow> 'a list \<Rightarrow> int \<Rightarrow> 'a best" where
  "record_best best p mj = (if mj < snd best then (Some p, mj) else best)"

text \<open>
  The weight of a pending path in the termination measure: it exceeds the total weight of
  the at most \<open>len(cities)\<close> successors, which are one city longer.
\<close>

definition wt :: "'a list \<Rightarrow> 'a list \<Rightarrow> nat" where
  "wt cities p = (length cities + 1) ^ (length cities + 1 - length p)"

text \<open>The (path, value) pair of a queue entry, the invariant and the measure of \<open>bfs_step\<close>.\<close>

definition bfs_abs :: "'a bfs_entry \<Rightarrow> 'a list \<times> int" where
  "bfs_abs e = (fst (snd e), snd (snd e))"

definition bfs_inv :: "'a list \<Rightarrow> 'a table \<Rightarrow> 'a bfs_entry list \<times> 'a best \<Rightarrow> bool" where
  "bfs_inv cities d c \<longleftrightarrow>
     search_inv cities d (bfs_abs ` set (fst c)) (snd c) \<and>
     (\<forall>e \<in> set (fst c). fst e = last (fst (snd e)))"

definition bfs_measure :: "'a list \<Rightarrow> 'a bfs_entry list \<times> 'a best \<Rightarrow> nat" where
  "bfs_measure cities c = sum_list (map (\<lambda>e. wt cities (fst (snd e))) (fst c))"

text \<open>
  What every search returns: a best record whose value is at most the value of every tour.
\<close>

definition optimal :: "'a list \<Rightarrow> 'a table \<Rightarrow> 'a best \<Rightarrow> bool" where
  "optimal cities d best \<longleftrightarrow>
     best_ok cities d best \<and> (\<forall>t. tour cities t \<longrightarrow> snd best \<le> running_max d t)"

text \<open>The (path, value) pair of a frontier entry, the invariant and the measure of \<open>ucs_step\<close>.\<close>

definition ucs_abs :: "'a ucs_entry \<Rightarrow> 'a list \<times> int" where
  "ucs_abs e = (snd e, fst e)"

definition ucs_inv :: "'a list \<Rightarrow> 'a table \<Rightarrow> 'a ucs_entry list \<times> 'a best \<Rightarrow> bool" where
  "ucs_inv cities d c \<longleftrightarrow> search_inv cities d (ucs_abs ` set (fst c)) (snd c)"

definition ucs_measure :: "'a list \<Rightarrow> 'a ucs_entry list \<times> 'a best \<Rightarrow> nat" where
  "ucs_measure cities c = sum_list (map (\<lambda>e. wt cities (snd e)) (fst c))"

text \<open>
  The (path, value) pair of an entry of the open set, the invariant and the measure of
  \<open>astar_step\<close>.
\<close>

definition astar_abs :: "'a astar_entry \<Rightarrow> 'a list \<times> int" where
  "astar_abs e = (fst (snd e), snd (snd e))"

definition astar_inv :: "'a list \<Rightarrow> 'a table \<Rightarrow> 'a astar_entry list \<times> 'a best \<Rightarrow> bool" where
  "astar_inv cities d c \<longleftrightarrow> search_inv cities d (astar_abs ` set (fst c)) (snd c)"

definition astar_measure :: "'a list \<Rightarrow> 'a astar_entry list \<times> 'a best \<Rightarrow> nat" where
  "astar_measure cities c = sum_list (map (\<lambda>e. wt cities (fst (snd e))) (fst c))"

text \<open>The matrix has the rows and columns that \<open>load_city_distances\<close> reads.\<close>

definition matrix_covers :: "'a list \<Rightarrow> int list list \<Rightarrow> bool" where
  "matrix_covers city_names distance_matrix \<longleftrightarrow>
     (\<forall>i < length city_names. i < length distance_matrix \<and>
        length city_names \<le> length (distance_matrix ! i))"

text \<open>A square matrix with one row and one column for each city.\<close>

definition square_matrix :: "'a list \<Rightarrow> int list list \<Rightarrow> bool" where
  "square_matrix city_names distance_matrix \<longleftrightarrow>
     length distance_matrix = length city_names \<and>
     (\<forall>row \<in> set distance_matrix. length row = length city_names)"

definition matrix_nonneg :: "int list list \<Rightarrow> bool" where
  "matrix_nonneg distance_matrix \<longleftrightarrow> (\<forall>row \<in> set distance_matrix. \<forall>w \<in> set row. 0 \<le> w)"

text \<open>Uniform cost: no key in the frontier is below a bound.\<close>

definition ucs_above :: "int \<Rightarrow> 'a ucs_entry list \<Rightarrow> bool" where
  "ucs_above k frontier \<longleftrightarrow> (\<forall>e \<in> set frontier. k \<le> fst e)"

text \<open>
  Uniform cost, once no pending key is below the best value: the best record stays as it
  is until the frontier is exhausted.
\<close>

definition ucs_settled :: "'a list \<Rightarrow> 'a table \<Rightarrow> 'a best \<Rightarrow>
    'a ucs_entry list \<times> 'a best \<Rightarrow> bool" where
  "ucs_settled cities d b c \<longleftrightarrow>
     ucs_inv cities d c \<and> snd c = b \<and> ucs_above (snd b) (fst c)"

text \<open>A table for two cities, used to run the programs on a concrete input.\<close>

definition example_table :: "string table" where
  "example_table =
     Map.empty((''A'', ''A'') \<mapsto> 0, (''A'', ''B'') \<mapsto> 1, (''B'', ''A'') \<mapsto> 2, (''B'', ''B'') \<mapsto> 0)"

text \<open>
  Three cities whose two round trips tie at a longest jump of 5: the breadth-first and the
  informed search return different tours.
\<close>

definition tied_matrix :: "int list list" where
  "tied_matrix = [[0, 5, 1], [1, 0, 5], [5, 5, 0]]"

definition tied_table :: "string table" where
  "tied_table =
     Map.empty((''A'', ''A'') \<mapsto> 0, (''A'', ''B'') \<mapsto> 5, (''A'', ''C'') \<mapsto> 1,
               (''B'', ''A'') \<mapsto> 1, (''B'', ''B'') \<mapsto> 0, (''B'', ''C'') \<mapsto> 5,
               (''C'', ''A'') \<mapsto> 5, (''C'', ''B'') \<mapsto> 5, (''C'', ''C'') \<mapsto> 0)"

text \<open>
  Three cities with negative weights: every jump of the tour A, B, C, A is negative.
\<close>

definition negative_matrix :: "int list list" where
  "negative_matrix = [[0, - 4, 7], [3, 0, - 2], [- 1, 6, 0]]"

definition negative_table :: "string table" where
  "negative_table =
     Map.empty((''A'', ''A'') \<mapsto> 0, (''A'', ''B'') \<mapsto> - 4, (''A'', ''C'') \<mapsto> 7,
               (''B'', ''A'') \<mapsto> 3, (''B'', ''B'') \<mapsto> 0, (''B'', ''C'') \<mapsto> - 2,
               (''C'', ''A'') \<mapsto> - 1, (''C'', ''B'') \<mapsto> 6, (''C'', ''C'') \<mapsto> 0)"

text \<open>The sum of the edge weights along a path: the \<open>g\<close> of the specification.\<close>

definition path_cost :: "'a table \<Rightarrow> 'a list \<Rightarrow> int" where
  "path_cost distances path = sum_list (jumps distances path)"

text \<open>Three cities where the informed search passes through a city with a non-zero estimate.\<close>

definition detour_table :: "string table" where
  "detour_table =
     Map.empty((''A'', ''A'') \<mapsto> 0, (''A'', ''B'') \<mapsto> 1, (''A'', ''C'') \<mapsto> 4,
               (''B'', ''A'') \<mapsto> 1, (''B'', ''B'') \<mapsto> 0, (''B'', ''C'') \<mapsto> 2,
               (''C'', ''A'') \<mapsto> 4, (''C'', ''B'') \<mapsto> 2, (''C'', ''C'') \<mapsto> 0)"

text \<open>
  Two cities whose only tour has a jump of \<open>2^63\<close>, one more than \<^verbatim>\<open>sys.maxsize\<close>.
\<close>

definition huge_matrix :: "int list list" where
  "huge_matrix = [[0, 9223372036854775808], [1, 0]]"

definition huge_table :: "string table" where
  "huge_table =
     Map.empty((''A'', ''A'') \<mapsto> 0, (''A'', ''B'') \<mapsto> 9223372036854775808,
               (''B'', ''A'') \<mapsto> 1, (''B'', ''B'') \<mapsto> 0)"

section \<open>Properties\<close>

lemma run_terminates:
  assumes "I c"
    and "\<And>c c'. I c \<Longrightarrow> body c = Continue c' \<Longrightarrow> I c' \<and> m c' < (m c :: nat)"
  shows "\<exists>r. run body c = Some r \<and>
              (case r of Inr v \<Rightarrow> \<exists>c'. I c' \<and> body c' = Return v
                       | Inl e \<Rightarrow> \<exists>c'. I c' \<and> body c' = Raise e)"
  using assms(1)
proof (induction c rule: measure_induct_rule [where f = m])
  case (less c)
  show ?case
  proof (cases "body c")
    case (Continue c')
    with less.prems assms(2) have "I c'" "m c' < m c" by blast+
    from less.IH [OF this(2) this(1)] Continue show ?thesis
      by (subst run.simps) simp
  next
    case (Return v)
    with less.prems show ?thesis
      by (subst run.simps) auto
  next
    case (Raise e)
    with less.prems show ?thesis
      by (subst run.simps) auto
  qed
qed

lemma reaches_invariant:
  assumes "reaches body c0 c" and "I c0"
    and "\<And>c c'. I c \<Longrightarrow> body c = Continue c' \<Longrightarrow> I c'"
  shows "I c"
  using assms by (induction rule: reaches.induct) auto

lemma run_reaches:
  assumes "reaches body c0 c"
  shows "run body c0 = run body c"
  using assms
proof (induction rule: reaches.induct)
  case reaches_start
  show ?case by simp
next
  case (reaches_step c c')
  have "run body c = run body c'"
    using reaches_step.hyps(2) by (subst run.simps) simp
  with reaches_step.IH show ?case by simp
qed

lemma partial_length:
  assumes "partial_path cities p"
  shows "length p \<le> length cities"
proof -
  from assms have "distinct p" "set p \<subseteq> set cities" by (auto simp: partial_path_def)
  then have "length p = card (set p)" by (simp add: distinct_card)
  also have "\<dots> \<le> card (set cities)" using \<open>set p \<subseteq> set cities\<close> by (simp add: card_mono)
  also have "\<dots> \<le> length cities" by (rule card_length)
  finally show ?thesis .
qed

lemma partial_not_tour: "partial_path cities p \<Longrightarrow> \<not> tour cities p"
  using partial_length [of cities p] by (auto simp: tour_def)

lemma tour_nonempty: "tour cities t \<Longrightarrow> t \<noteq> []"
  by (auto simp: tour_def)

lemma tour_set:
  assumes "tour cities t" "cities \<noteq> []"
  shows "set t \<subseteq> set cities"
proof -
  from assms have "t \<noteq> []" by (auto simp: tour_def)
  then have "t = butlast t @ [last t]" by simp
  then have "set t = set (butlast t) \<union> {last t}"
    by (metis list.set(1) list.simps(15) set_append)
  with assms show ?thesis by (auto simp: tour_def)
qed

lemma valid_complete_iff:
  assumes "valid_path cities p"
  shows "(length p = length cities + 1 \<and> last p = hd p) \<longleftrightarrow> tour cities p"
  using assms partial_length [of cities p]
  by (auto simp: valid_path_def tour_def)

lemma distinct_hd_last:
  assumes "distinct p" "1 < length p"
  shows "hd p \<noteq> last p"
proof -
  from assms obtain a q where p: "p = a # q" "q \<noteq> []" by (cases p) auto
  then have "last p \<in> set q" by simp
  with assms p show ?thesis by auto
qed

lemma valid_ucs_complete:
  assumes "valid_path cities p" "cities \<noteq> []"
  shows "ucs_complete cities p = Inr (tour cities p)"
proof (cases "tour cities p")
  case True
  then have "length (remdups (butlast p)) = length cities"
    by (simp add: tour_def distinct_remdups_id)
  moreover from True assms(2) have "1 < length p" "last p = hd cities"
    by (auto simp: tour_def)
  ultimately show ?thesis using True assms(2)
    by (cases cities) (simp_all add: ucs_complete_def)
next
  case False
  with assms have pp: "partial_path cities p" by (simp add: valid_path_def)
  then have "1 < length p \<Longrightarrow> last p \<noteq> hd cities"
    using distinct_hd_last [of p] by (auto simp: partial_path_def)
  with False assms(2) show ?thesis
    by (cases cities) (auto simp: ucs_complete_def)
qed

lemma candidate_valid:
  assumes "partial_path cities p" "c \<in> set cities" "candidate cities p c"
  shows "valid_path cities (p @ [c])"
proof (cases "c \<in> set p")
  case False
  with assms show ?thesis by (auto simp: valid_path_def partial_path_def)
next
  case True
  with assms have c: "c = hd p" and n: "length (remdups p) = length cities"
    by (auto simp: candidate_def)
  from assms have d: "distinct p" and s: "set p \<subseteq> set cities" and h: "hd p = hd cities" and ne: "p \<noteq> []"
    by (auto simp: partial_path_def)
  from d n have len: "length p = length cities" by (simp add: distinct_remdups_id)
  have "card (set cities) \<le> length cities" by (rule card_length)
  also have "\<dots> = card (set p)" using d len by (simp add: distinct_card)
  finally have "set p = set cities" using s by (simp add: card_seteq)
  with d len c h ne have "tour cities (p @ [c])" by (simp add: tour_def)
  then show ?thesis by (simp add: valid_path_def)
qed

lemma tour_extends:
  assumes "partial_path cities p" "tour cities t" "prefix p t" "cities \<noteq> []"
  shows "\<exists>c. c \<in> set cities \<and> candidate cities p c \<and> prefix (p @ [c]) t"
proof -
  from assms(1) have pl: "length p \<le> length cities" by (rule partial_length)
  from assms(3) obtain r where t: "t = p @ r" by (auto simp: prefix_def)
  with pl assms(2) have "r \<noteq> []" by (auto simp: tour_def)
  then obtain c r' where r: "r = c # r'" by (cases r) auto
  have "c \<in> set t" using t r by simp
  with tour_set [OF assms(2,4)] have cc: "c \<in> set cities" by auto
  have pre: "prefix (p @ [c]) t" using t r by simp
  have "candidate cities p c"
  proof (cases "r' = []")
    case True
    with t r have bl: "butlast t = p" and "last t = c" by auto
    with assms(1,2) have "c = hd p" "length p = length cities" "distinct p"
      by (auto simp: tour_def partial_path_def)
    then show ?thesis by (simp add: candidate_def distinct_remdups_id)
  next
    case False
    with t r have "butlast t = p @ c # butlast r'" by (simp add: butlast_append)
    with assms(2) have "c \<notin> set p" by (auto simp: tour_def)
    then show ?thesis by (simp add: candidate_def)
  qed
  with cc pre show ?thesis by blast
qed

lemma jumps_snoc:
  "p \<noteq> [] \<Longrightarrow> jumps d (p @ [c]) = jumps d p @ [the (d (last p, c))]"
proof (induction p)
  case Nil
  then show ?case by simp
next
  case (Cons a p)
  then show ?case by (cases p) (auto simp: jumps_def)
qed

lemma running_max_snoc:
  "p \<noteq> [] \<Longrightarrow> running_max d (p @ [c]) = max (running_max d p) (the (d (last p, c)))"
  by (simp add: running_max_def jumps_snoc max.commute)

lemma running_max_single [simp]: "running_max d [a] = 0"
  by (simp add: running_max_def jumps_def)

lemma running_max_Max: "running_max d p = Max (insert 0 (set (jumps d p)))"
  using Max.set_eq_fold [of 0 "jumps d p"] by (simp add: running_max_def)

lemma running_max_prefix:
  assumes "p \<noteq> []"
  shows "running_max d p \<le> running_max d (p @ r)"
proof (induction r rule: rev_induct)
  case Nil
  show ?case by simp
next
  case (snoc x r)
  have "running_max d (p @ r @ [x]) = running_max d ((p @ r) @ [x])" by simp
  also have "\<dots> = max (running_max d (p @ r)) (the (d (last (p @ r), x)))"
    using assms by (intro running_max_snoc) simp
  finally show ?case using snoc by simp
qed

lemma running_max_nonneg: "0 \<le> running_max d p"
  by (simp add: running_max_Max)

lemma best_ok_le: "best_ok cities d best \<Longrightarrow> snd best \<le> maxsize"
  by (auto simp: best_ok_def)

lemma tour_prefix_eq:
  assumes "tour cities p" "tour cities t" "prefix p t"
  shows "p = t"
proof -
  from assms(1,2) have "length p = length t" by (simp add: tour_def)
  with assms(3) show ?thesis by (auto simp: prefix_def)
qed

lemma search_inv_goal:
  assumes "search_inv cities d (insert (p, mj) A) best" "tour cities p"
  shows "search_inv cities d A (record_best best p mj)"
proof -
  from assms(1) have ne: "cities \<noteq> []" and po: "pending_ok cities d (insert (p, mj) A)"
    and bo: "best_ok cities d best" and co: "covered cities d (insert (p, mj) A) best"
    by (auto simp: search_inv_def)
  from po have mj: "mj = running_max d p" and po': "pending_ok cities d A"
    by (auto simp: pending_ok_def)
  have bo': "best_ok cities d (record_best best p mj)"
  proof (cases "mj < snd best")
    case True
    with best_ok_le [OF bo] have "running_max d p < maxsize" using mj by simp
    with True assms(2) mj show ?thesis by (simp add: record_best_def best_ok_def)
  next
    case False
    with bo show ?thesis by (simp add: record_best_def)
  qed
  have le: "snd (record_best best p mj) \<le> snd best" "snd (record_best best p mj) \<le> mj"
    by (auto simp: record_best_def)
  have "covered cities d A (record_best best p mj)"
    unfolding covered_def
  proof (intro allI impI)
    fix t assume t: "tour cities t"
    with co have "snd best \<le> running_max d t \<or> (\<exists>(q, m) \<in> insert (p, mj) A. prefix q t)"
      by (simp add: covered_def)
    then consider "snd best \<le> running_max d t" | "prefix p t" | "\<exists>(q, m) \<in> A. prefix q t"
      by auto
    then show "snd (record_best best p mj) \<le> running_max d t \<or> (\<exists>(q, m) \<in> A. prefix q t)"
    proof cases
      case 1
      with le(1) show ?thesis by simp
    next
      case 2
      with assms(2) t have "p = t" by (rule tour_prefix_eq)
      with le(2) mj show ?thesis by simp
    next
      case 3
      then show ?thesis by simp
    qed
  qed
  with ne po' bo' show ?thesis by (simp add: search_inv_def)
qed

lemma search_inv_expand:
  assumes "search_inv cities d (insert (p, mj) A) best" "\<not> tour cities p"
  shows "search_inv cities d (A \<union> set (succs cities d p mj)) best"
proof -
  from assms(1) have ne: "cities \<noteq> []" and po: "pending_ok cities d (insert (p, mj) A)"
    and bo: "best_ok cities d best" and co: "covered cities d (insert (p, mj) A) best"
    by (auto simp: search_inv_def)
  from po assms(2) have mj: "mj = running_max d p" and pp: "partial_path cities p"
    and po': "pending_ok cities d A"
    by (auto simp: pending_ok_def valid_path_def)
  from pp have pne: "p \<noteq> []" by (simp add: partial_path_def)
  have "pending_ok cities d (set (succs cities d p mj))"
    using candidate_valid [OF pp] running_max_snoc [OF pne, of d] mj
    by (auto simp: pending_ok_def succs_def)
  with po' have po'': "pending_ok cities d (A \<union> set (succs cities d p mj))"
    by (auto simp: pending_ok_def)
  have "covered cities d (A \<union> set (succs cities d p mj)) best"
    unfolding covered_def
  proof (intro allI impI)
    fix t assume t: "tour cities t"
    with co have "snd best \<le> running_max d t \<or> (\<exists>(q, m) \<in> insert (p, mj) A. prefix q t)"
      by (simp add: covered_def)
    then consider "snd best \<le> running_max d t" | "prefix p t" | "\<exists>(q, m) \<in> A. prefix q t"
      by auto
    then show "snd best \<le> running_max d t \<or>
        (\<exists>(q, m) \<in> A \<union> set (succs cities d p mj). prefix q t)"
    proof cases
      case 1
      then show ?thesis by simp
    next
      case 2
      from tour_extends [OF pp t 2 ne] obtain c where
        "c \<in> set cities" "candidate cities p c" "prefix (p @ [c]) t" by blast
      then have "\<exists>(q, m) \<in> set (succs cities d p mj). prefix q t"
        by (force simp: succs_def)
      then show ?thesis by blast
    next
      case 3
      then show ?thesis by blast
    qed
  qed
  with ne po'' bo show ?thesis by (simp add: search_inv_def)
qed

lemma wt_pos: "0 < wt cities p"
  by (simp add: wt_def)

lemma sum_list_const: "(\<And>x. x \<in> set xs \<Longrightarrow> f x = (k::nat)) \<Longrightarrow> sum_list (map f xs) = length xs * k"
  by (induction xs) auto

lemma succs_wt:
  assumes "partial_path cities p"
  shows "sum_list (map (\<lambda>e. wt cities (fst e)) (succs cities d p mj)) < wt cities p"
proof -
  let ?n = "length cities"
  let ?k = "(?n + 1) ^ (?n - length p)"
  from assms have le: "length p \<le> ?n" by (rule partial_length)
  have "sum_list (map (\<lambda>e. wt cities (fst e)) (succs cities d p mj))
      = length (succs cities d p mj) * ?k"
    by (rule sum_list_const) (auto simp: succs_def wt_def)
  also have "\<dots> \<le> ?n * ?k"
    by (simp add: succs_def)
  also have "\<dots> < (?n + 1) * ?k" by simp
  also have "\<dots> = wt cities p"
    using le by (simp add: wt_def Suc_diff_le)
  finally show ?thesis .
qed

lemma bfs_expand_Inr:
  "bfs_expand cities d (cur, p, mj) cs = Inr new \<Longrightarrow> p \<noteq> [] \<Longrightarrow>
   new = map (\<lambda>c. (c, p @ [c], max mj (the (d (cur, c))))) (filter (candidate cities p) cs)"
proof (induction cs arbitrary: new)
  case Nil
  then show ?case by simp
next
  case (Cons c cs)
  then show ?case
    by (cases p) (auto simp: candidate_def split: if_splits option.splits sum.splits)
qed

lemma bfs_expand_total:
  "\<forall>c \<in> set cs. d (cur, c) \<noteq> None \<Longrightarrow> p \<noteq> [] \<Longrightarrow>
   \<exists>new. bfs_expand cities d (cur, p, mj) cs = Inr new"
proof (induction cs)
  case Nil
  then show ?case by simp
next
  case (Cons c cs)
  then show ?case
    by (cases p) (auto split: option.splits sum.splits)
qed

lemma bfs_new_abs:
  "map bfs_abs (map (\<lambda>c. (c, p @ [c], max mj (the (d (last p, c))))) (filter (candidate cities p) cities))
   = succs cities d p mj"
  by (simp add: succs_def bfs_abs_def comp_def)

lemma bfs_step_inv:
  assumes "bfs_inv cities d c" "bfs_step cities d c = Continue c'"
  shows "bfs_inv cities d c' \<and> bfs_measure cities c' < bfs_measure cities c"
proof -
  obtain queue0 bp mmj where c: "c = (queue0, (bp, mmj))" by (cases c) auto
  with assms(2) obtain cur p mj queue where q: "queue0 = (cur, p, mj) # queue"
    by (cases queue0) auto
  let ?A = "bfs_abs ` set queue"
  from assms(1) c q have si: "search_inv cities d (insert (p, mj) ?A) (bp, mmj)"
    and cur: "cur = last p" and curs: "\<forall>e \<in> set queue. fst e = last (fst (snd e))"
    by (auto simp: bfs_inv_def bfs_abs_def)
  from si have vp: "valid_path cities p" by (auto simp: search_inv_def pending_ok_def)
  show ?thesis
  proof (cases "tour cities p")
    case True
    with valid_complete_iff [OF vp] have "length p = length cities + 1 \<and> last p = hd p" by simp
    with assms(2) c q have c': "c' = (queue, record_best (bp, mmj) p mj)"
      by (auto simp: record_best_def)
    from search_inv_goal [OF si True] curs c' have "bfs_inv cities d c'"
      by (simp add: bfs_inv_def)
    moreover have "bfs_measure cities c' < bfs_measure cities c"
      using c c' q wt_pos [of cities p] by (simp add: bfs_measure_def)
    ultimately show ?thesis by simp
  next
    case False
    with vp have pp: "partial_path cities p" by (simp add: valid_path_def)
    then have pne: "p \<noteq> []" by (simp add: partial_path_def)
    from False valid_complete_iff [OF vp]
    have nc: "\<not> (length p = length cities + 1 \<and> last p = hd p)" by simp
    with assms(2) c q obtain new where
      ex: "bfs_expand cities d (cur, p, mj) cities = Inr new" and
      c': "c' = (queue @ new, (bp, mmj))"
      by (auto split: sum.splits)
    let ?new = "map (\<lambda>c. (c, p @ [c], max mj (the (d (last p, c))))) (filter (candidate cities p) cities)"
    from bfs_expand_Inr [OF ex pne] cur have new: "new = ?new" by simp
    have abs: "map bfs_abs new = succs cities d p mj"
      unfolding new by (rule bfs_new_abs)
    then have "bfs_abs ` set new = set (succs cities d p mj)"
      by (metis set_map)
    with search_inv_expand [OF si False] c'
    have "search_inv cities d (bfs_abs ` set (fst c')) (snd c')"
      by (simp add: image_Un)
    moreover have "\<forall>e \<in> set (fst c'). fst e = last (fst (snd e))"
      using curs c' new by auto
    ultimately have "bfs_inv cities d c'" by (simp add: bfs_inv_def)
    moreover have "bfs_measure cities c' < bfs_measure cities c"
    proof -
      have "map (\<lambda>e. wt cities (fst (snd e))) new = map (\<lambda>e. wt cities (fst e)) (map bfs_abs new)"
        by (simp add: bfs_abs_def comp_def)
      with abs succs_wt [OF pp, of d mj]
      have "sum_list (map (\<lambda>e. wt cities (fst (snd e))) new) < wt cities p" by simp
      with c c' q show ?thesis by (simp add: bfs_measure_def)
    qed
    ultimately show ?thesis by simp
  qed
qed

lemma single_valid: "cities = start # rest \<Longrightarrow> valid_path cities [start]"
  by (simp add: valid_path_def partial_path_def)

lemma search_inv_init:
  assumes "cities = start # rest"
  shows "search_inv cities d {([start], 0)} (None, maxsize)"
proof -
  have "prefix [start] t" if "tour cities t" for t
  proof -
    from that have "t \<noteq> []" "hd t = start" using assms by (auto simp: tour_def)
    then show ?thesis by (cases t) auto
  qed
  then have "covered cities d {([start], 0)} (None, maxsize)"
    by (simp add: covered_def)
  with assms single_valid [OF assms] show ?thesis
    by (simp add: search_inv_def pending_ok_def best_ok_def)
qed

lemma bfs_inv_init: "cities = start # rest \<Longrightarrow> bfs_inv cities d (bfs_init start)"
  using search_inv_init [of cities start rest d]
  by (simp add: bfs_inv_def bfs_init_def bfs_abs_def)

lemma optimal_unique:
  assumes "optimal cities d b1" "optimal cities d b2"
  shows "snd b1 = snd b2"
proof -
  have "snd x \<le> snd y" if "optimal cities d x" "optimal cities d y" for x y :: "'a best"
    using that best_ok_le [of cities d x] by (auto simp: optimal_def best_ok_def)
  from this [of b1 b2] this [of b2 b1] assms show ?thesis by simp
qed

lemma search_inv_empty: "search_inv cities d {} best \<Longrightarrow> optimal cities d best"
  by (simp add: search_inv_def covered_def optimal_def)

lemma valid_path_in:
  assumes "valid_path cities p" "cities \<noteq> []"
  shows "p \<noteq> [] \<and> last p \<in> set cities \<and> hd p = hd cities"
proof (cases "tour cities p")
  case True
  with assms(2) show ?thesis by (auto simp: tour_def)
next
  case False
  with assms(1) have "partial_path cities p" by (simp add: valid_path_def)
  then show ?thesis using last_in_set [of p] by (auto simp: partial_path_def)
qed

lemma bfs_result:
  assumes "cities = start # rest"
  shows "\<exists>r. bfs_tsp cities d = Some r \<and>
     (case r of Inr best \<Rightarrow> optimal cities d best | Inl e \<Rightarrow> \<not> table_total cities d)"
proof -
  from run_terminates [of "bfs_inv cities d" "bfs_init start" "bfs_step cities d" "bfs_measure cities",
      OF bfs_inv_init [OF assms] bfs_step_inv]
  obtain r where r: "run (bfs_step cities d) (bfs_init start) = Some r"
    and fin: "case r of Inr v \<Rightarrow> \<exists>c'. bfs_inv cities d c' \<and> bfs_step cities d c' = Return v
                | Inl e \<Rightarrow> \<exists>c'. bfs_inv cities d c' \<and> bfs_step cities d c' = Raise e"
    by blast
  have "case r of Inr best \<Rightarrow> optimal cities d best | Inl e \<Rightarrow> \<not> table_total cities d"
  proof (cases r)
    case (Inr v)
    with fin obtain c' where c': "bfs_inv cities d c'" "bfs_step cities d c' = Return v" by auto
    obtain q bp mmj where cc: "c' = (q, (bp, mmj))" by (cases c') auto
    with c'(2) have "q = []" "v = (bp, mmj)"
      by (cases q; auto split: if_splits sum.splits)+
    with c'(1) cc have "search_inv cities d {} v" by (simp add: bfs_inv_def)
    with Inr show ?thesis by (simp add: search_inv_empty)
  next
    case (Inl e)
    with fin obtain c' where c': "bfs_inv cities d c'" "bfs_step cities d c' = Raise e" by auto
    obtain q bp mmj where cc: "c' = (q, (bp, mmj))" by (cases c') auto
    with c'(2) obtain cur p mj q' where q: "q = (cur, p, mj) # q'" by (cases q) auto
    with c'(2) cc have ex: "bfs_expand cities d (cur, p, mj) cities = Inl e"
      by (auto split: if_splits sum.splits)
    from c'(1) cc q have "valid_path cities p" "cur = last p" "cities \<noteq> []"
      by (auto simp: bfs_inv_def search_inv_def pending_ok_def bfs_abs_def)
    with valid_path_in [of cities p] have "p \<noteq> []" "cur \<in> set cities" by auto
    have "\<not> table_total cities d"
    proof
      assume "table_total cities d"
      with \<open>cur \<in> set cities\<close> have "\<forall>c \<in> set cities. d (cur, c) \<noteq> None"
        by (simp add: table_total_def)
      from bfs_expand_total [OF this \<open>p \<noteq> []\<close>, of cities mj] ex show False by simp
    qed
    with Inl show ?thesis by simp
  qed
  with r assms show ?thesis by (simp add: bfs_tsp_def)
qed

lemma set_fold_heappush: "set (fold heappush new h) = set h \<union> set new"
  by (induction new arbitrary: h) (auto simp: heappush_def set_insort_key)

lemma sum_list_insort: "sum_list (map f (insort x xs)) = (f x :: nat) + sum_list (map f xs)"
  by (induction xs) auto

lemma sum_fold_heappush:
  "sum_list (map f (fold heappush new h)) = sum_list (map f h) + (sum_list (map f new) :: nat)"
  by (induction new arbitrary: h) (auto simp: heappush_def sum_list_insort)

lemma sorted_fold_heappush: "sorted h \<Longrightarrow> sorted (fold heappush new h)"
  by (induction new arbitrary: h) (auto simp: heappush_def sorted_insort)

lemma ucs_expand_Inr:
  "ucs_expand cities d (mj, p) cs = Inr new \<Longrightarrow> p \<noteq> [] \<Longrightarrow> hd p = hd cities \<Longrightarrow>
   new = map (\<lambda>c. (max mj (the (d (last p, c))), p @ [c])) (filter (candidate cities p) cs)"
proof (induction cs arbitrary: new)
  case Nil
  then show ?case by simp
next
  case (Cons c cs)
  then show ?case
    by (cases p) (auto simp: candidate_def split: if_splits option.splits sum.splits)
qed

lemma ucs_expand_total:
  "\<forall>c \<in> set cs. d (last p, c) \<noteq> None \<Longrightarrow> \<exists>new. ucs_expand cities d (mj, p) cs = Inr new"
proof (induction cs)
  case Nil
  then show ?case by simp
next
  case (Cons c cs)
  then show ?case
    by (auto split: option.splits sum.splits)
qed

lemma ucs_new_abs:
  "map ucs_abs (map (\<lambda>c. (max mj (the (d (last p, c))), p @ [c])) (filter (candidate cities p) cities))
   = succs cities d p mj"
  by (simp add: succs_def ucs_abs_def comp_def)

lemma ucs_step_inv:
  assumes "ucs_inv cities d c" "ucs_step cities d c = Continue c'"
  shows "ucs_inv cities d c' \<and> ucs_measure cities c' < ucs_measure cities c"
proof -
  obtain frontier0 bp mmj where c: "c = (frontier0, (bp, mmj))" by (cases c) auto
  with assms(2) obtain p mj frontier where q: "frontier0 = (mj, p) # frontier"
    by (cases frontier0) auto
  let ?A = "ucs_abs ` set frontier"
  from assms(1) c q have si: "search_inv cities d (insert (p, mj) ?A) (bp, mmj)"
    by (auto simp: ucs_inv_def ucs_abs_def)
  from si have vp: "valid_path cities p" and ne: "cities \<noteq> []"
    by (auto simp: search_inv_def pending_ok_def)
  from valid_path_in [OF vp ne] have pne: "p \<noteq> []" and hd: "hd p = hd cities" by auto
  note uc = valid_ucs_complete [OF vp ne]
  show ?thesis
  proof (cases "tour cities p")
    case True
    with assms(2) c q uc pne have c': "c' = (frontier, record_best (bp, mmj) p mj)"
      by (auto simp: record_best_def)
    from search_inv_goal [OF si True] c' have "ucs_inv cities d c'"
      by (simp add: ucs_inv_def)
    moreover have "ucs_measure cities c' < ucs_measure cities c"
      using c c' q wt_pos [of cities p] by (simp add: ucs_measure_def)
    ultimately show ?thesis by simp
  next
    case False
    with vp have pp: "partial_path cities p" by (simp add: valid_path_def)
    from assms(2) c q uc pne False obtain new where
      ex: "ucs_expand cities d (mj, p) cities = Inr new" and
      c': "c' = (fold heappush new frontier, (bp, mmj))"
      by (auto split: sum.splits)
    let ?new = "map (\<lambda>c. (max mj (the (d (last p, c))), p @ [c])) (filter (candidate cities p) cities)"
    from ucs_expand_Inr [OF ex pne hd] have new: "new = ?new" by simp
    have abs: "map ucs_abs new = succs cities d p mj"
      unfolding new by (rule ucs_new_abs)
    then have "ucs_abs ` set new = set (succs cities d p mj)"
      by (metis set_map)
    with search_inv_expand [OF si False] c'
    have "ucs_inv cities d c'"
      by (simp add: ucs_inv_def image_Un set_fold_heappush)
    moreover have "ucs_measure cities c' < ucs_measure cities c"
    proof -
      have "map (\<lambda>e. wt cities (snd e)) new = map (\<lambda>e. wt cities (fst e)) (map ucs_abs new)"
        by (simp add: ucs_abs_def comp_def)
      with abs succs_wt [OF pp, of d mj]
      have "sum_list (map (\<lambda>e. wt cities (snd e)) new) < wt cities p" by simp
      with c c' q show ?thesis by (simp add: ucs_measure_def sum_fold_heappush)
    qed
    ultimately show ?thesis by simp
  qed
qed

lemma ucs_inv_init: "cities = start # rest \<Longrightarrow> ucs_inv cities d (ucs_init start)"
  using search_inv_init [of cities start rest d]
  by (simp add: ucs_inv_def ucs_init_def ucs_abs_def heappush_def)

lemma ucs_result:
  assumes "cities = start # rest"
  shows "\<exists>r. ucs_solve cities d = Some r \<and>
     (case r of Inr best \<Rightarrow> optimal cities d best | Inl e \<Rightarrow> \<not> table_total cities d)"
proof -
  from run_terminates [of "ucs_inv cities d" "ucs_init start" "ucs_step cities d" "ucs_measure cities",
      OF ucs_inv_init [OF assms] ucs_step_inv]
  obtain r where r: "run (ucs_step cities d) (ucs_init start) = Some r"
    and fin: "case r of Inr v \<Rightarrow> \<exists>c'. ucs_inv cities d c' \<and> ucs_step cities d c' = Return v
                | Inl e \<Rightarrow> \<exists>c'. ucs_inv cities d c' \<and> ucs_step cities d c' = Raise e"
    by blast
  have "case r of Inr best \<Rightarrow> optimal cities d best | Inl e \<Rightarrow> \<not> table_total cities d"
  proof (cases r)
    case (Inr v)
    with fin obtain c' where c': "ucs_inv cities d c'" "ucs_step cities d c' = Return v" by auto
    obtain q bp mmj where cc: "c' = (q, (bp, mmj))" by (cases c') auto
    with c'(2) have "q = []" "v = (bp, mmj)"
      by (cases q; auto split: if_splits sum.splits bool.splits)+
    with c'(1) cc have "search_inv cities d {} v" by (simp add: ucs_inv_def)
    with Inr show ?thesis by (simp add: search_inv_empty)
  next
    case (Inl e)
    with fin obtain c' where c': "ucs_inv cities d c'" "ucs_step cities d c' = Raise e" by auto
    obtain q bp mmj where cc: "c' = (q, (bp, mmj))" by (cases c') auto
    with c'(2) obtain p mj q' where q: "q = (mj, p) # q'" by (cases q) auto
    from c'(1) cc q have vp: "valid_path cities p" and ne: "cities \<noteq> []"
      by (auto simp: ucs_inv_def search_inv_def pending_ok_def ucs_abs_def)
    from valid_path_in [OF vp ne] have pne: "p \<noteq> []" and "last p \<in> set cities" by auto
    from c'(2) cc q pne valid_ucs_complete [OF vp ne]
    have ex: "ucs_expand cities d (mj, p) cities = Inl e"
      by (auto split: if_splits sum.splits bool.splits)
    have "\<not> table_total cities d"
    proof
      assume "table_total cities d"
      with \<open>last p \<in> set cities\<close> have "\<forall>c \<in> set cities. d (last p, c) \<noteq> None"
        by (simp add: table_total_def)
      from ucs_expand_total [OF this, of cities mj] ex show False by simp
    qed
    with Inl show ?thesis by simp
  qed
  with r assms show ?thesis by (simp add: ucs_solve_def)
qed

lemma astar_remaining_filter: "astar_remaining cities p = filter (candidate cities p) cities"
  unfolding astar_remaining_def by (rule filter_cong) (simp_all add: candidate_def)

lemma astar_expand_Inr:
  "astar_expand d (cost, p, mj) remaining cs = Inr new \<Longrightarrow>
   map astar_abs new = map (\<lambda>c. (p @ [c], max mj (the (d (last p, c))))) cs"
proof (induction cs arbitrary: new)
  case Nil
  then show ?case by simp
next
  case (Cons c cs)
  then show ?case
    by (auto simp: astar_abs_def split: option.splits sum.splits)
qed

lemma heuristic_distances_total:
  "\<forall>c \<in> set cs. d (cur, c) \<noteq> None \<Longrightarrow> \<exists>ws. heuristic_distances d cur cs = Inr ws"
proof (induction cs)
  case Nil
  then show ?case by simp
next
  case (Cons c cs)
  then show ?case by (auto split: option.splits sum.splits)
qed

lemma heuristic_total:
  "\<forall>c \<in> set cs. d (cur, c) \<noteq> None \<Longrightarrow> \<exists>h. heuristic d cs cur = Inr h"
  using heuristic_distances_total [of cs d cur] by (auto simp: heuristic_def)

lemma astar_expand_total:
  assumes "\<forall>c \<in> set cs. d (last p, c) \<noteq> None"
    and "\<forall>c \<in> set cs. \<forall>x \<in> set remaining. d (c, x) \<noteq> None"
  shows "\<exists>new. astar_expand d (cost, p, mj) remaining cs = Inr new"
  using assms
proof (induction cs)
  case Nil
  then show ?case by simp
next
  case (Cons c cs)
  from Cons.prems(2) have "\<forall>x \<in> set remaining. d (c, x) \<noteq> None" by simp
  from heuristic_total [OF this] obtain h where "heuristic d remaining c = Inr h" by blast
  with Cons show ?case by (auto split: option.splits sum.splits)
qed

lemma astar_step_inv:
  assumes "astar_inv cities d c" "astar_step cities d c = Continue c'"
  shows "astar_inv cities d c' \<and> astar_measure cities c' < astar_measure cities c"
proof -
  obtain open0 bp mmj where c: "c = (open0, (bp, mmj))" by (cases c) auto
  with assms(2) obtain cost p mj open_set where q: "open0 = (cost, p, mj) # open_set"
    by (cases open0) auto
  let ?A = "astar_abs ` set open_set"
  from assms(1) c q have si: "search_inv cities d (insert (p, mj) ?A) (bp, mmj)"
    by (auto simp: astar_inv_def astar_abs_def)
  from si have vp: "valid_path cities p" and ne: "cities \<noteq> []"
    by (auto simp: search_inv_def pending_ok_def)
  from valid_path_in [OF vp ne] have pne: "p \<noteq> []" by auto
  show ?thesis
  proof (cases "tour cities p")
    case True
    with valid_complete_iff [OF vp] have "length p = length cities + 1 \<and> last p = hd p" by simp
    with assms(2) c q pne have c': "c' = (open_set, record_best (bp, mmj) p mj)"
      by (auto simp: record_best_def)
    from search_inv_goal [OF si True] c' have "astar_inv cities d c'"
      by (simp add: astar_inv_def)
    moreover have "astar_measure cities c' < astar_measure cities c"
      using c c' q wt_pos [of cities p] by (simp add: astar_measure_def)
    ultimately show ?thesis by simp
  next
    case False
    with vp have pp: "partial_path cities p" by (simp add: valid_path_def)
    from False valid_complete_iff [OF vp]
    have nc: "\<not> (length p = length cities + 1 \<and> last p = hd p)" by simp
    with assms(2) c q pne obtain new where
      ex: "astar_expand d (cost, p, mj) (astar_remaining cities p) (astar_remaining cities p) = Inr new"
      and c': "c' = (fold heappush new open_set, (bp, mmj))"
      by (auto split: sum.splits)
    from astar_expand_Inr [OF ex] have abs: "map astar_abs new = succs cities d p mj"
      by (simp add: succs_def astar_remaining_filter)
    then have "astar_abs ` set new = set (succs cities d p mj)"
      by (metis set_map)
    with search_inv_expand [OF si False] c'
    have "astar_inv cities d c'"
      by (simp add: astar_inv_def image_Un set_fold_heappush)
    moreover have "astar_measure cities c' < astar_measure cities c"
    proof -
      have "map (\<lambda>e. wt cities (fst (snd e))) new = map (\<lambda>e. wt cities (fst e)) (map astar_abs new)"
        by (simp add: astar_abs_def comp_def)
      with abs succs_wt [OF pp, of d mj]
      have "sum_list (map (\<lambda>e. wt cities (fst (snd e))) new) < wt cities p" by simp
      with c c' q show ?thesis by (simp add: astar_measure_def sum_fold_heappush)
    qed
    ultimately show ?thesis by simp
  qed
qed

lemma astar_inv_init: "cities = start # rest \<Longrightarrow> astar_inv cities d (astar_init start)"
  using search_inv_init [of cities start rest d]
  by (simp add: astar_inv_def astar_init_def astar_abs_def heappush_def)

lemma astar_result:
  assumes "cities = start # rest"
  shows "\<exists>r. astar_solve cities d = Some r \<and>
     (case r of Inr best \<Rightarrow> optimal cities d best | Inl e \<Rightarrow> \<not> table_total cities d)"
proof -
  from run_terminates [of "astar_inv cities d" "astar_init start" "astar_step cities d"
      "astar_measure cities", OF astar_inv_init [OF assms] astar_step_inv]
  obtain r where r: "run (astar_step cities d) (astar_init start) = Some r"
    and fin: "case r of Inr v \<Rightarrow> \<exists>c'. astar_inv cities d c' \<and> astar_step cities d c' = Return v
                | Inl e \<Rightarrow> \<exists>c'. astar_inv cities d c' \<and> astar_step cities d c' = Raise e"
    by blast
  have "case r of Inr best \<Rightarrow> optimal cities d best | Inl e \<Rightarrow> \<not> table_total cities d"
  proof (cases r)
    case (Inr v)
    with fin obtain c' where c': "astar_inv cities d c'" "astar_step cities d c' = Return v" by auto
    obtain q bp mmj where cc: "c' = (q, (bp, mmj))" by (cases c') auto
    with c'(2) have "q = []" "v = (bp, mmj)"
      by (cases q; auto split: if_splits sum.splits)+
    with c'(1) cc have "search_inv cities d {} v" by (simp add: astar_inv_def)
    with Inr show ?thesis by (simp add: search_inv_empty)
  next
    case (Inl e)
    with fin obtain c' where c': "astar_inv cities d c'" "astar_step cities d c' = Raise e" by auto
    obtain q bp mmj where cc: "c' = (q, (bp, mmj))" by (cases c') auto
    with c'(2) obtain cost p mj q' where q: "q = (cost, p, mj) # q'" by (cases q) auto
    from c'(1) cc q have vp: "valid_path cities p" and ne: "cities \<noteq> []"
      by (auto simp: astar_inv_def search_inv_def pending_ok_def astar_abs_def)
    from valid_path_in [OF vp ne] have pne: "p \<noteq> []" and "last p \<in> set cities" by auto
    from c'(2) cc q pne
    have ex: "astar_expand d (cost, p, mj) (astar_remaining cities p) (astar_remaining cities p) = Inl e"
      by (auto split: if_splits sum.splits)
    have sub: "set (astar_remaining cities p) \<subseteq> set cities"
      by (auto simp: astar_remaining_def)
    have "\<not> table_total cities d"
    proof
      assume "table_total cities d"
      with \<open>last p \<in> set cities\<close> sub
      have "\<forall>c \<in> set (astar_remaining cities p). d (last p, c) \<noteq> None"
        "\<forall>c \<in> set (astar_remaining cities p). \<forall>x \<in> set (astar_remaining cities p). d (c, x) \<noteq> None"
        unfolding table_total_def by blast+
      from astar_expand_total [OF this, of cost mj] ex show False by simp
    qed
    with Inl show ?thesis by simp
  qed
  with r assms show ?thesis by (simp add: astar_solve_def)
qed

lemma load_inner_cases:
  "load_inner m i origin j ds dist = Inl IndexError \<or> (\<exists>d'. load_inner m i origin j ds dist = Inr d')"
  by (induction ds arbitrary: j dist) auto

lemma load_inner_Inr_iff:
  "(\<exists>d'. load_inner m i origin j ds dist = Inr d') \<longleftrightarrow>
   ds = [] \<or> (i < length m \<and> j + length ds \<le> length (m ! i))"
proof (induction ds arbitrary: j dist)
  case Nil
  show ?case by simp
next
  case (Cons b ds)
  show ?case
  proof (cases "i < length m \<and> j < length (m ! i)")
    case True
    then show ?thesis using Cons [of "Suc j"] by (cases ds) auto
  next
    case False
    then show ?thesis by auto
  qed
qed

lemma load_inner_dom:
  "load_inner m i origin j ds dist = Inr d' \<Longrightarrow> dom d' = dom dist \<union> {origin} \<times> set ds"
proof (induction ds arbitrary: j dist)
  case Nil
  then show ?case by simp
next
  case (Cons b ds)
  from Cons.prems have
    "load_inner m i origin (Suc j) ds (dist((origin, b) \<mapsto> m ! i ! j)) = Inr d'"
    by (simp split: if_splits)
  then have "dom d' = dom (dist((origin, b) \<mapsto> m ! i ! j)) \<union> {origin} \<times> set ds"
    by (rule Cons.IH)
  also have "dom (dist((origin, b) \<mapsto> m ! i ! j)) = insert (origin, b) (dom dist)"
    by simp
  finally show ?case by auto
qed

lemma load_inner_range:
  "load_inner m i origin j ds dist = Inr d' \<Longrightarrow> d' (a, b) = Some w \<Longrightarrow>
   dist (a, b) = Some w \<or> (a = origin \<and> (\<exists>k < length ds. ds ! k = b \<and> w = m ! i ! (j + k)))"
proof (induction ds arbitrary: j dist)
  case Nil
  then show ?case by simp
next
  case (Cons c ds)
  from Cons.prems(1) have
    rec: "load_inner m i origin (Suc j) ds (dist((origin, c) \<mapsto> m ! i ! j)) = Inr d'"
    by (simp split: if_splits)
  from Cons.IH [OF rec Cons.prems(2)]
  consider "(dist((origin, c) \<mapsto> m ! i ! j)) (a, b) = Some w"
    | "a = origin" "\<exists>k < length ds. ds ! k = b \<and> w = m ! i ! (Suc j + k)"
    by blast
  then show ?case
  proof cases
    case 1
    then have "dist (a, b) = Some w \<or> (a = origin \<and> b = c \<and> w = m ! i ! j)"
      by (auto split: if_splits)
    then show ?thesis by force
  next
    case 2
    then obtain k where "k < length ds" "ds ! k = b" "w = m ! i ! (Suc j + k)" by blast
    then have "Suc k < length (c # ds) \<and> (c # ds) ! Suc k = b \<and> w = m ! i ! (j + Suc k)" by simp
    with 2(1) show ?thesis by blast
  qed
qed

lemma load_outer_cases:
  "load_outer m cs i os dist = Inl IndexError \<or> (\<exists>d'. load_outer m cs i os dist = Inr d')"
proof (induction os arbitrary: i dist)
  case Nil
  show ?case by simp
next
  case (Cons a os)
  from load_inner_cases [of m i a 0 cs dist] Cons show ?case
    by (auto split: sum.splits)
qed

lemma load_outer_Inr_iff:
  assumes "cs \<noteq> []"
  shows "(\<exists>d'. load_outer m cs i os dist = Inr d') \<longleftrightarrow>
     (\<forall>k < length os. i + k < length m \<and> length cs \<le> length (m ! (i + k)))"
proof (induction os arbitrary: i dist)
  case Nil
  show ?case by simp
next
  case (Cons a os)
  let ?ok = "i < length m \<and> length cs \<le> length (m ! i)"
  have inner: "(\<exists>d1. load_inner m i a 0 cs dist = Inr d1) \<longleftrightarrow> ?ok"
    using load_inner_Inr_iff [of m i a 0 cs dist] assms by simp
  have split: "(\<forall>k < length (a # os). i + k < length m \<and> length cs \<le> length (m ! (i + k))) \<longleftrightarrow>
      ?ok \<and> (\<forall>k < length os. Suc i + k < length m \<and> length cs \<le> length (m ! (Suc i + k)))"
    (is "?L \<longleftrightarrow> _ \<and> ?R")
  proof
    assume l: ?L
    then have "?ok" by (metis add.right_neutral length_greater_0_conv list.discI)
    moreover have ?R
    proof (intro allI impI)
      fix k assume "k < length os"
      then have "Suc k < length (a # os)" by simp
      with l have "i + Suc k < length m \<and> length cs \<le> length (m ! (i + Suc k))" by blast
      then show "Suc i + k < length m \<and> length cs \<le> length (m ! (Suc i + k))" by simp
    qed
    ultimately show "?ok \<and> ?R" by simp
  next
    assume r: "?ok \<and> ?R"
    show ?L
    proof (intro allI impI)
      fix k assume k: "k < length (a # os)"
      show "i + k < length m \<and> length cs \<le> length (m ! (i + k))"
      proof (cases k)
        case 0
        with r show ?thesis by simp
      next
        case (Suc k')
        with k have "k' < length os" by simp
        with r have "Suc i + k' < length m \<and> length cs \<le> length (m ! (Suc i + k'))" by blast
        with Suc show ?thesis by simp
      qed
    qed
  qed
  show ?case
  proof (cases "load_inner m i a 0 cs dist")
    case (Inl e)
    with inner have "\<not> ?ok" by auto
    with Inl split show ?thesis by auto
  next
    case (Inr d1)
    with inner have ok: ?ok by auto
    from Inr have "(\<exists>d'. load_outer m cs i (a # os) dist = Inr d') \<longleftrightarrow>
        (\<exists>d'. load_outer m cs (Suc i) os d1 = Inr d')" by simp
    also have "\<dots> \<longleftrightarrow> ?R" by (rule Cons.IH)
    finally show ?thesis using ok split by simp
  qed
qed

lemma load_outer_dom:
  "load_outer m cs i os dist = Inr d' \<Longrightarrow> dom d' = dom dist \<union> set os \<times> set cs"
proof (induction os arbitrary: i dist)
  case Nil
  then show ?case by simp
next
  case (Cons a os)
  from Cons.prems obtain d1 where d1: "load_inner m i a 0 cs dist = Inr d1"
    and rec: "load_outer m cs (Suc i) os d1 = Inr d'"
    by (auto split: sum.splits)
  from load_inner_dom [OF d1] Cons.IH [OF rec] show ?case by auto
qed

lemma load_outer_range:
  "load_outer m cs i os dist = Inr d' \<Longrightarrow> d' (a, b) = Some w \<Longrightarrow>
   dist (a, b) = Some w \<or>
   (\<exists>k < length os. \<exists>l < length cs. os ! k = a \<and> cs ! l = b \<and> w = m ! (i + k) ! l)"
proof (induction os arbitrary: i dist)
  case Nil
  then show ?case by simp
next
  case (Cons c os)
  from Cons.prems(1) obtain d1 where d1: "load_inner m i c 0 cs dist = Inr d1"
    and rec: "load_outer m cs (Suc i) os d1 = Inr d'"
    by (auto split: sum.splits)
  from Cons.IH [OF rec Cons.prems(2)]
  consider "d1 (a, b) = Some w"
    | "\<exists>k < length os. \<exists>l < length cs. os ! k = a \<and> cs ! l = b \<and> w = m ! (Suc i + k) ! l"
    by blast
  then show ?case
  proof cases
    case 1
    from load_inner_range [OF d1 1]
    have "dist (a, b) = Some w \<or> (a = c \<and> (\<exists>l < length cs. cs ! l = b \<and> w = m ! i ! l))"
      by simp
    then show ?thesis
    proof
      assume "dist (a, b) = Some w"
      then show ?thesis by simp
    next
      assume "a = c \<and> (\<exists>l < length cs. cs ! l = b \<and> w = m ! i ! l)"
      then obtain l where "l < length cs" "cs ! l = b" "w = m ! (i + 0) ! l" "(c # os) ! 0 = a"
        by auto
      then have "\<exists>k < length (c # os). \<exists>l < length cs. (c # os) ! k = a \<and> cs ! l = b \<and> w = m ! (i + k) ! l"
        by (intro exI [of _ 0]) auto
      then show ?thesis by blast
    qed
  next
    case 2
    then obtain k l where kl: "k < length os" "l < length cs" "os ! k = a" "cs ! l = b"
      "w = m ! (Suc i + k) ! l" by blast
    then have "Suc k < length (c # os) \<and> l < length cs \<and> (c # os) ! Suc k = a \<and> cs ! l = b \<and>
        w = m ! (i + Suc k) ! l" by simp
    then show ?thesis by blast
  qed
qed

lemma load_covers:
  assumes "matrix_covers cities m"
  shows "\<exists>d. load_city_distances cities m = Inr d \<and> dom d = set cities \<times> set cities"
proof (cases "cities = []")
  case True
  then show ?thesis by (simp add: load_city_distances_def)
next
  case False
  from assms have "\<forall>k < length cities. 0 + k < length m \<and> length cities \<le> length (m ! (0 + k))"
    by (simp add: matrix_covers_def)
  with load_outer_Inr_iff [OF False, of m 0 cities Map.empty]
  obtain d where d: "load_outer m cities 0 cities Map.empty = Inr d" by blast
  from load_outer_dom [OF d] d show ?thesis by (simp add: load_city_distances_def)
qed

lemma load_not_covers:
  assumes "\<not> matrix_covers cities m"
  shows "load_city_distances cities m = Inl IndexError"
proof -
  from assms have ne: "cities \<noteq> []" by (auto simp: matrix_covers_def)
  from assms have "\<not> (\<forall>k < length cities. 0 + k < length m \<and> length cities \<le> length (m ! (0 + k)))"
    by (simp add: matrix_covers_def)
  with load_outer_Inr_iff [OF ne, of m 0 cities Map.empty]
  have "\<not> (\<exists>d. load_outer m cities 0 cities Map.empty = Inr d)" by blast
  with load_outer_cases [of m cities 0 cities Map.empty] show ?thesis
    by (simp add: load_city_distances_def)
qed

lemma load_range:
  assumes "load_city_distances cities m = Inr d" "d (a, b) = Some w"
  shows "\<exists>k < length cities. \<exists>l < length cities. cities ! k = a \<and> cities ! l = b \<and> w = m ! k ! l"
  using load_outer_range [of m cities 0 cities Map.empty d a b w] assms
  by (simp add: load_city_distances_def)

lemma load_value:
  assumes "load_city_distances cities m = Inr d" "distinct cities"
    "i < length cities" "j < length cities"
  shows "d (cities ! i, cities ! j) = Some (m ! i ! j)"
proof -
  have cov: "matrix_covers cities m"
    using load_not_covers [of cities m] assms(1) by auto
  from load_covers [OF cov] assms(1) have "dom d = set cities \<times> set cities" by auto
  with assms(3,4) obtain w where w: "d (cities ! i, cities ! j) = Some w"
    by (metis domD mem_Sigma_iff nth_mem)
  from load_range [OF assms(1) w] obtain k l where
    "k < length cities" "l < length cities" "cities ! k = cities ! i" "cities ! l = cities ! j"
    "w = m ! k ! l" by blast
  with assms(2,3,4) have "k = i" "l = j" by (auto simp: nth_eq_iff_index_eq)
  with w \<open>w = m ! k ! l\<close> show ?thesis by simp
qed

lemma square_covers: "square_matrix cities m \<Longrightarrow> matrix_covers cities m"
  by (auto simp: square_matrix_def matrix_covers_def)

lemma load_total:
  assumes "load_city_distances cities m = Inr d"
  shows "table_total cities d"
proof -
  have cov: "matrix_covers cities m"
    using load_not_covers [of cities m] assms by auto
  from load_covers [OF cov] assms have "dom d = set cities \<times> set cities" by auto
  then show ?thesis by (auto simp: table_total_def)
qed

lemma load_nonneg:
  assumes "load_city_distances cities m = Inr d" "square_matrix cities m" "matrix_nonneg m"
  shows "table_nonneg cities d"
  unfolding table_nonneg_def
proof (intro ballI allI impI)
  fix a b w assume "d (a, b) = Some w"
  from load_range [OF assms(1) this] obtain k l where
    kl: "k < length cities" "l < length cities" "w = m ! k ! l" by blast
  with assms(2) have "m ! k \<in> set m" "l < length (m ! k)"
    by (auto simp: square_matrix_def)
  then have "m ! k ! l \<in> set (m ! k)" by simp
  with \<open>m ! k \<in> set m\<close> assms(3) kl show "0 \<le> w" by (auto simp: matrix_nonneg_def)
qed

lemma valid_goal_iff:
  assumes "valid_path cities p" "cities \<noteq> []"
  shows "is_goal cities p \<longleftrightarrow> tour cities p"
proof (cases "tour cities p")
  case True
  then have "take (length cities) p = butlast p"
    by (simp add: tour_def butlast_conv_take)
  with True show ?thesis by (simp add: is_goal_def tour_def)
next
  case False
  with assms have "partial_path cities p" by (simp add: valid_path_def)
  from partial_length [OF this] False show ?thesis by (simp add: is_goal_def)
qed

lemma jumps_nonneg:
  assumes "table_total cities d" "table_nonneg cities d" "set p \<subseteq> set cities"
  shows "\<forall>w \<in> set (jumps d p). 0 \<le> w"
proof
  fix w assume "w \<in> set (jumps d p)"
  then obtain a b where ab: "(a, b) \<in> set (zip p (tl p))" and w: "w = the (d (a, b))"
    by (auto simp: jumps_def)
  from ab have "a \<in> set p" "b \<in> set (tl p)" by (auto dest: set_zip_leftD set_zip_rightD)
  with assms(3) have "a \<in> set cities" "b \<in> set cities"
    by (auto dest: list.set_sel(2) [rotated])
  with assms(1,2) w show "0 \<le> w" by (auto simp: table_total_def table_nonneg_def)
qed

lemma running_max_max_edge:
  assumes "table_total cities d" "table_nonneg cities d" "set p \<subseteq> set cities"
  shows "running_max d p = max_edge d p"
proof (cases "jumps d p = []")
  case True
  then show ?thesis by (simp add: running_max_def max_edge_def)
next
  case False
  from jumps_nonneg [OF assms] have nn: "\<forall>w \<in> set (jumps d p). 0 \<le> w" .
  from False have ne: "set (jumps d p) \<noteq> {}" by simp
  have "Max (insert 0 (set (jumps d p))) = max 0 (Max (set (jumps d p)))"
    using ne by simp
  also have "\<dots> = Max (set (jumps d p))"
    using ne nn by (simp add: max_def Max_ge_iff)
  finally show ?thesis using False by (simp add: running_max_Max max_edge_def)
qed

lemma valid_path_subset:
  assumes "valid_path cities p" "cities \<noteq> []"
  shows "set p \<subseteq> set cities"
proof (cases "tour cities p")
  case True
  then show ?thesis using assms(2) by (rule tour_set)
next
  case False
  with assms(1) show ?thesis by (simp add: valid_path_def partial_path_def)
qed

lemma bfs_reaches_inv:
  assumes "cities = start # rest" "reaches (bfs_step cities d) (bfs_init start) c"
  shows "bfs_inv cities d c"
proof (rule reaches_invariant [OF assms(2)])
  show "bfs_inv cities d (bfs_init start)" using assms(1) by (rule bfs_inv_init)
next
  fix c c' assume "bfs_inv cities d c" "bfs_step cities d c = Continue c'"
  then show "bfs_inv cities d c'" using bfs_step_inv by blast
qed

lemma ucs_reaches_inv:
  assumes "cities = start # rest" "reaches (ucs_step cities d) (ucs_init start) c"
  shows "ucs_inv cities d c"
proof (rule reaches_invariant [OF assms(2)])
  show "ucs_inv cities d (ucs_init start)" using assms(1) by (rule ucs_inv_init)
next
  fix c c' assume "ucs_inv cities d c" "ucs_step cities d c = Continue c'"
  then show "ucs_inv cities d c'" using ucs_step_inv by blast
qed

lemma astar_reaches_inv:
  assumes "cities = start # rest" "reaches (astar_step cities d) (astar_init start) c"
  shows "astar_inv cities d c"
proof (rule reaches_invariant [OF assms(2)])
  show "astar_inv cities d (astar_init start)" using assms(1) by (rule astar_inv_init)
next
  fix c c' assume "astar_inv cities d c" "astar_step cities d c = Continue c'"
  then show "astar_inv cities d c'" using astar_step_inv by blast
qed

lemma bfs_no_raise:
  assumes "bfs_inv cities d c" "table_total cities d"
  shows "bfs_step cities d c \<noteq> Raise e"
proof
  assume r: "bfs_step cities d c = Raise e"
  obtain q bp mmj where cc: "c = (q, (bp, mmj))" by (cases c) auto
  with r obtain cur p mj q' where q: "q = (cur, p, mj) # q'" by (cases q) auto
  with r cc have ex: "bfs_expand cities d (cur, p, mj) cities = Inl e"
    by (auto split: if_splits sum.splits)
  from assms(1) cc q have "valid_path cities p" "cur = last p" "cities \<noteq> []"
    by (auto simp: bfs_inv_def search_inv_def pending_ok_def bfs_abs_def)
  with valid_path_in [of cities p] have "p \<noteq> []" "cur \<in> set cities" by auto
  with assms(2) have "\<forall>c \<in> set cities. d (cur, c) \<noteq> None"
    by (simp add: table_total_def)
  from bfs_expand_total [OF this \<open>p \<noteq> []\<close>, of cities mj] ex show False by simp
qed

lemma ucs_no_raise:
  assumes "ucs_inv cities d c" "table_total cities d"
  shows "ucs_step cities d c \<noteq> Raise e"
proof
  assume r: "ucs_step cities d c = Raise e"
  obtain q bp mmj where cc: "c = (q, (bp, mmj))" by (cases c) auto
  with r obtain p mj q' where q: "q = (mj, p) # q'" by (cases q) auto
  from assms(1) cc q have vp: "valid_path cities p" and ne: "cities \<noteq> []"
    by (auto simp: ucs_inv_def search_inv_def pending_ok_def ucs_abs_def)
  from valid_path_in [OF vp ne] have pne: "p \<noteq> []" and "last p \<in> set cities" by auto
  from r cc q pne valid_ucs_complete [OF vp ne]
  have ex: "ucs_expand cities d (mj, p) cities = Inl e"
    by (auto split: if_splits sum.splits bool.splits)
  from assms(2) \<open>last p \<in> set cities\<close> have "\<forall>c \<in> set cities. d (last p, c) \<noteq> None"
    by (simp add: table_total_def)
  from ucs_expand_total [OF this, of cities mj] ex show False by simp
qed

lemma astar_no_raise:
  assumes "astar_inv cities d c" "table_total cities d"
  shows "astar_step cities d c \<noteq> Raise e"
proof
  assume r: "astar_step cities d c = Raise e"
  obtain q bp mmj where cc: "c = (q, (bp, mmj))" by (cases c) auto
  with r obtain cost p mj q' where q: "q = (cost, p, mj) # q'" by (cases q) auto
  from assms(1) cc q have vp: "valid_path cities p" and ne: "cities \<noteq> []"
    by (auto simp: astar_inv_def search_inv_def pending_ok_def astar_abs_def)
  from valid_path_in [OF vp ne] have pne: "p \<noteq> []" and "last p \<in> set cities" by auto
  from r cc q pne
  have ex: "astar_expand d (cost, p, mj) (astar_remaining cities p) (astar_remaining cities p) = Inl e"
    by (auto split: if_splits sum.splits)
  have sub: "set (astar_remaining cities p) \<subseteq> set cities"
    by (auto simp: astar_remaining_def)
  with assms(2) \<open>last p \<in> set cities\<close>
  have "\<forall>c \<in> set (astar_remaining cities p). d (last p, c) \<noteq> None"
    "\<forall>c \<in> set (astar_remaining cities p). \<forall>x \<in> set (astar_remaining cities p). d (c, x) \<noteq> None"
    unfolding table_total_def by blast+
  from astar_expand_total [OF this, of cost mj] ex show False by simp
qed

lemma sorted_head_above:
  assumes "sorted ((k, p) # frontier)"
  shows "ucs_above k (frontier :: ('a::linorder) ucs_entry list)"
  using assms by (auto simp: ucs_above_def less_eq_prod_def)

lemma ucs_step_sorted:
  assumes "sorted (fst c)" "ucs_step cities d c = Continue c'"
  shows "sorted (fst c')"
proof -
  obtain q bp mmj where cc: "c = (q, (bp, mmj))" by (cases c) auto
  with assms(2) obtain p mj q' where q: "q = (mj, p) # q'" by (cases q) auto
  from assms(1) cc q have "sorted q'" by simp
  with assms(2) cc q show ?thesis
    by (auto split: if_splits sum.splits bool.splits intro: sorted_fold_heappush)
qed

lemma ucs_reaches_sorted:
  assumes "reaches (ucs_step cities d) (ucs_init start) c"
  shows "sorted (fst c)"
  using assms
proof (induction rule: reaches.induct)
  case reaches_start
  show ?case by (simp add: ucs_init_def heappush_def)
next
  case (reaches_step c c')
  then show ?case by (blast intro: ucs_step_sorted)
qed

lemma ucs_step_above:
  assumes "ucs_inv cities d c" "c = ((k, p) # frontier, best)" "ucs_above k frontier"
    "ucs_step cities d c = Continue c'"
  shows "ucs_above k (fst c')"
proof -
  obtain bp mmj where b: "best = (bp, mmj)" by (cases best) auto
  from assms(1,2) have vp: "valid_path cities p" and ne: "cities \<noteq> []"
    by (auto simp: ucs_inv_def search_inv_def pending_ok_def ucs_abs_def)
  from valid_path_in [OF vp ne] have pne: "p \<noteq> []" and hd: "hd p = hd cities" by auto
  show ?thesis
  proof (cases "tour cities p")
    case True
    with assms(2,4) b pne valid_ucs_complete [OF vp ne] have "fst c' = frontier" by auto
    with assms(3) show ?thesis by simp
  next
    case False
    with assms(2,4) b pne valid_ucs_complete [OF vp ne] obtain new where
      ex: "ucs_expand cities d (k, p) cities = Inr new" and
      c': "fst c' = fold heappush new frontier"
      by (auto split: sum.splits)
    from ucs_expand_Inr [OF ex pne hd] have "\<forall>e \<in> set new. k \<le> fst e" by auto
    with assms(3) c' show ?thesis by (auto simp: ucs_above_def set_fold_heappush)
  qed
qed

lemma ucs_settled_step:
  assumes "ucs_settled cities d b c" "ucs_step cities d c = Continue c'"
  shows "ucs_settled cities d b c' \<and> ucs_measure cities c' < ucs_measure cities c"
proof -
  obtain bp k where b: "b = (bp, k)" by (cases b) auto
  from assms(1) b have inv: "ucs_inv cities d c" and best: "snd c = (bp, k)"
    and ab: "ucs_above k (fst c)" by (auto simp: ucs_settled_def)
  from ucs_step_inv [OF inv assms(2)] have inv': "ucs_inv cities d c'"
    and m: "ucs_measure cities c' < ucs_measure cities c" by auto
  obtain q where cc: "c = (q, (bp, k))" using best by (cases c) auto
  with assms(2) obtain p' k' q' where q: "q = (k', p') # q'" by (cases q) auto
  from ab cc q have kk: "k \<le> k'" and abq: "ucs_above k q'" by (auto simp: ucs_above_def)
  from inv cc q have vp: "valid_path cities p'" and ne: "cities \<noteq> []"
    by (auto simp: ucs_inv_def search_inv_def pending_ok_def ucs_abs_def)
  from valid_path_in [OF vp ne] have pne: "p' \<noteq> []" and hd: "hd p' = hd cities" by auto
  have "snd c' = (bp, k) \<and> ucs_above k (fst c')"
  proof (cases "tour cities p'")
    case True
    with assms(2) cc q pne valid_ucs_complete [OF vp ne] kk abq show ?thesis by auto
  next
    case False
    with assms(2) cc q pne valid_ucs_complete [OF vp ne] obtain new where
      ex: "ucs_expand cities d (k', p') cities = Inr new" and
      c': "c' = (fold heappush new q', (bp, k))"
      by (auto split: sum.splits)
    from ucs_expand_Inr [OF ex pne hd] kk have "\<forall>e \<in> set new. k \<le> fst e" by auto
    with abq c' show ?thesis by (auto simp: ucs_above_def set_fold_heappush)
  qed
  with inv' m b show ?thesis by (simp add: ucs_settled_def)
qed

lemma ucs_settled_run:
  assumes "ucs_settled cities d b c" "table_total cities d"
  shows "run (ucs_step cities d) c = Some (Inr b)"
proof -
  from run_terminates [of "ucs_settled cities d b" c "ucs_step cities d" "ucs_measure cities",
      OF assms(1) ucs_settled_step]
  obtain r where r: "run (ucs_step cities d) c = Some r"
    and fin: "case r of Inr v \<Rightarrow> \<exists>c'. ucs_settled cities d b c' \<and> ucs_step cities d c' = Return v
                | Inl e \<Rightarrow> \<exists>c'. ucs_settled cities d b c' \<and> ucs_step cities d c' = Raise e"
    by blast
  have "r = Inr b"
  proof (cases r)
    case (Inr v)
    with fin obtain c' where c': "ucs_settled cities d b c'" "ucs_step cities d c' = Return v"
      by auto
    obtain q b' where cc: "c' = (q, b')" by (cases c') auto
    with c'(2) have "q = []" "v = b'"
      by (cases q; cases b'; auto split: if_splits sum.splits bool.splits)+
    with c'(1) cc Inr show ?thesis by (simp add: ucs_settled_def)
  next
    case (Inl e)
    with fin obtain c' where "ucs_settled cities d b c'" "ucs_step cities d c' = Raise e"
      by auto
    with ucs_no_raise [OF _ assms(2), of c' e] show ?thesis by (simp add: ucs_settled_def)
  qed
  with r show ?thesis by simp
qed

lemma running_max_max0: "running_max d p = max 0 (max_edge d p)"
proof (cases "jumps d p = []")
  case True
  then show ?thesis by (simp add: running_max_def max_edge_def)
next
  case False
  then have "Max (insert 0 (set (jumps d p))) = max 0 (Max (set (jumps d p)))" by simp
  with False show ?thesis by (simp add: running_max_Max max_edge_def)
qed

lemma example_total: "table_total [''A'', ''B''] example_table"
  by (simp add: table_total_def example_table_def)

lemma example_nonneg: "table_nonneg [''A'', ''B''] example_table"
  by (simp add: table_nonneg_def example_table_def)

lemma example_tour: "tour [''A'', ''B''] [''A'', ''B'', ''A'']"
  by (simp add: tour_def)


lemma solve_optimal:
  assumes "cities \<noteq> []" "table_total cities d"
  shows "\<exists>b1 b2 b3.
     bfs_tsp cities d = Some (Inr b1) \<and> optimal cities d b1 \<and>
     ucs_solve cities d = Some (Inr b2) \<and> optimal cities d b2 \<and>
     astar_solve cities d = Some (Inr b3) \<and> optimal cities d b3"
proof -
  from assms(1) obtain start rest where c: "cities = start # rest" by (cases cities) auto
  have inr: "\<exists>best. r = Inr best \<and> optimal cities d best"
    if "case r of Inr best \<Rightarrow> optimal cities d best | Inl e \<Rightarrow> \<not> table_total cities d"
    for r :: "error + 'a best"
    using that assms(2) by (cases r) auto
  from bfs_result [OF c, of d] inr obtain b1 where
    "bfs_tsp cities d = Some (Inr b1)" "optimal cities d b1" by blast
  moreover from ucs_result [OF c, of d] inr obtain b2 where
    "ucs_solve cities d = Some (Inr b2)" "optimal cities d b2" by blast
  moreover from astar_result [OF c, of d] inr obtain b3 where
    "astar_solve cities d = Some (Inr b3)" "optimal cities d b3" by blast
  ultimately show ?thesis by blast
qed

lemma optimal_max_edge:
  assumes "optimal cities d (bp, v)" "cities \<noteq> []" "table_total cities d" "table_nonneg cities d"
  shows "(\<forall>t. tour cities t \<longrightarrow> v \<le> max_edge d t) \<and> (\<forall>p. bp = Some p \<longrightarrow> max_edge d p = v)"
proof -
  have eq: "running_max d t = max_edge d t" if "tour cities t" for t
    using running_max_max_edge [OF assms(3,4) tour_set [OF that assms(2)]] .
  from assms(1) have "\<forall>t. tour cities t \<longrightarrow> v \<le> running_max d t"
    and "\<forall>p. bp = Some p \<longrightarrow> tour cities p \<and> running_max d p = v"
    by (auto simp: optimal_def best_ok_def)
  with eq show ?thesis by auto
qed

text \<open>
  C10: with at least one city and a table that has an entry for every ordered pair of
  cities, nothing in the three searches fails: no pass through a loop body raises, and
  each solve function returns a result.
\<close>

theorem solve_never_raises:
  assumes "cities = start # rest" "table_total cities d"
  shows "(\<exists>best. bfs_tsp cities d = Some (Inr best)) \<and>
         (\<exists>best. ucs_solve cities d = Some (Inr best)) \<and>
         (\<exists>best. astar_solve cities d = Some (Inr best)) \<and>
         (\<forall>c e. reaches (bfs_step cities d) (bfs_init start) c \<longrightarrow> bfs_step cities d c \<noteq> Raise e) \<and>
         (\<forall>c e. reaches (ucs_step cities d) (ucs_init start) c \<longrightarrow> ucs_step cities d c \<noteq> Raise e) \<and>
         (\<forall>c e. reaches (astar_step cities d) (astar_init start) c \<longrightarrow>
            astar_step cities d c \<noteq> Raise e)"
proof -
  from assms(1) have "cities \<noteq> []" by simp
  from solve_optimal [OF this assms(2)] have
    "(\<exists>best. bfs_tsp cities d = Some (Inr best)) \<and>
     (\<exists>best. ucs_solve cities d = Some (Inr best)) \<and>
     (\<exists>best. astar_solve cities d = Some (Inr best))" by blast
  moreover have "bfs_step cities d c \<noteq> Raise e"
    if "reaches (bfs_step cities d) (bfs_init start) c" for c e
    using bfs_no_raise [OF bfs_reaches_inv [OF assms(1) that] assms(2)] .
  moreover have "ucs_step cities d c \<noteq> Raise e"
    if "reaches (ucs_step cities d) (ucs_init start) c" for c e
    using ucs_no_raise [OF ucs_reaches_inv [OF assms(1) that] assms(2)] .
  moreover have "astar_step cities d c \<noteq> Raise e"
    if "reaches (astar_step cities d) (astar_init start) c" for c e
    using astar_no_raise [OF astar_reaches_inv [OF assms(1) that] assms(2)] .
  ultimately show ?thesis by blast
qed

theorem solve_never_raises_witness:
  "table_total [''A'', ''B''] example_table \<and>
   (\<exists>best. bfs_tsp [''A'', ''B''] example_table = Some (Inr best)) \<and>
   (\<exists>best. ucs_solve [''A'', ''B''] example_table = Some (Inr best)) \<and>
   (\<exists>best. astar_solve [''A'', ''B''] example_table = Some (Inr best)) \<and>
   bfs_step [''A'', ''B''] example_table (bfs_init ''A'') \<noteq> Raise KeyError"
proof -
  note th = solve_never_raises [OF refl example_total]
  have r: "reaches (bfs_step [''A'', ''B''] example_table) (bfs_init ''A'') (bfs_init ''A'')"
    by (rule reaches_start)
  note th1 = th [THEN conjunct1]
  note th2 = th [THEN conjunct2, THEN conjunct1]
  note th3 = th [THEN conjunct2, THEN conjunct2, THEN conjunct1]
  note th4 = th [THEN conjunct2, THEN conjunct2, THEN conjunct2, THEN conjunct1, rule_format, OF r]
  show ?thesis
    by (intro conjI) (rule example_total th1 th2 th3 th4)+
qed

text \<open>
  C3: each of the three solve functions terminates, with a result or an exception, for
  every list of cities and every table; every entry that the search holds has a path of
  at most \<open>len(cities) + 1\<close> cities.
\<close>

theorem solve_terminates:
  "(\<exists>r. bfs_tsp cities d = Some r) \<and>
   (\<exists>r. ucs_solve cities d = Some r) \<and>
   (\<exists>r. astar_solve cities d = Some r) \<and>
   (\<forall>start rest c. cities = start # rest \<and> reaches (bfs_step cities d) (bfs_init start) c \<longrightarrow>
      (\<forall>(current_city, path, max_jump) \<in> set (fst c). length path \<le> length cities + 1)) \<and>
   (\<forall>start rest c. cities = start # rest \<and> reaches (ucs_step cities d) (ucs_init start) c \<longrightarrow>
      (\<forall>(max_jump, path) \<in> set (fst c). length path \<le> length cities + 1)) \<and>
   (\<forall>start rest c. cities = start # rest \<and> reaches (astar_step cities d) (astar_init start) c \<longrightarrow>
      (\<forall>(cost, path, max_jump) \<in> set (fst c). length path \<le> length cities + 1))"
proof -
  have len: "length p \<le> length cities + 1" if "valid_path cities p" for p
    using that partial_length [of cities p] by (auto simp: valid_path_def tour_def)
  have fin: "(\<exists>r. bfs_tsp cities d = Some r) \<and> (\<exists>r. ucs_solve cities d = Some r) \<and>
      (\<exists>r. astar_solve cities d = Some r)"
  proof (cases cities)
    case Nil
    then show ?thesis by (simp add: bfs_tsp_def ucs_solve_def astar_solve_def)
  next
    case (Cons start rest)
    from bfs_result [OF Cons, of d] ucs_result [OF Cons, of d] astar_result [OF Cons, of d]
    show ?thesis by blast
  qed
  have pend: "length p \<le> length cities + 1" if "pending_ok cities d A" "(p, mj) \<in> A" for A p mj
    using that len by (auto simp: pending_ok_def)
  have b: "\<forall>(current_city, path, max_jump) \<in> set (fst c). length path \<le> length cities + 1"
    if "cities = start # rest" "reaches (bfs_step cities d) (bfs_init start) c" for start rest c
  proof (clarify)
    fix cur p mj assume "(cur, p, mj) \<in> set (fst c)"
    then have "bfs_abs (cur, p, mj) \<in> bfs_abs ` set (fst c)" by (rule imageI)
    moreover from bfs_reaches_inv [OF that] have "pending_ok cities d (bfs_abs ` set (fst c))"
      by (simp add: bfs_inv_def search_inv_def)
    ultimately show "length p \<le> length cities + 1"
      using pend [of "bfs_abs ` set (fst c)" p mj] by (simp add: bfs_abs_def)
  qed
  have u: "\<forall>(max_jump, path) \<in> set (fst c). length path \<le> length cities + 1"
    if "cities = start # rest" "reaches (ucs_step cities d) (ucs_init start) c" for start rest c
  proof (clarify)
    fix p mj assume "(mj, p) \<in> set (fst c)"
    then have "ucs_abs (mj, p) \<in> ucs_abs ` set (fst c)" by (rule imageI)
    moreover from ucs_reaches_inv [OF that] have "pending_ok cities d (ucs_abs ` set (fst c))"
      by (simp add: ucs_inv_def search_inv_def)
    ultimately show "length p \<le> length cities + 1"
      using pend [of "ucs_abs ` set (fst c)" p mj] by (simp add: ucs_abs_def)
  qed
  have a: "\<forall>(cost, path, max_jump) \<in> set (fst c). length path \<le> length cities + 1"
    if "cities = start # rest" "reaches (astar_step cities d) (astar_init start) c" for start rest c
  proof (clarify)
    fix cost p mj assume "(cost, p, mj) \<in> set (fst c)"
    then have "astar_abs (cost, p, mj) \<in> astar_abs ` set (fst c)" by (rule imageI)
    moreover from astar_reaches_inv [OF that] have "pending_ok cities d (astar_abs ` set (fst c))"
      by (simp add: astar_inv_def search_inv_def)
    ultimately show "length p \<le> length cities + 1"
      using pend [of "astar_abs ` set (fst c)" p mj] by (simp add: astar_abs_def)
  qed
  from fin have f1: "\<exists>r. bfs_tsp cities d = Some r" and f2: "\<exists>r. ucs_solve cities d = Some r"
    and f3: "\<exists>r. astar_solve cities d = Some r" by (rule conjunct1, rule conjunct2 [THEN conjunct1], rule conjunct2 [THEN conjunct2])
  have B: "\<forall>start rest c. cities = start # rest \<and> reaches (bfs_step cities d) (bfs_init start) c \<longrightarrow>
      (\<forall>(current_city, path, max_jump) \<in> set (fst c). length path \<le> length cities + 1)"
  proof (intro allI impI, elim conjE)
    fix start rest c
    assume "cities = start # rest" "reaches (bfs_step cities d) (bfs_init start) c"
    then show "\<forall>(current_city, path, max_jump) \<in> set (fst c). length path \<le> length cities + 1"
      by (rule b)
  qed
  have U: "\<forall>start rest c. cities = start # rest \<and> reaches (ucs_step cities d) (ucs_init start) c \<longrightarrow>
      (\<forall>(max_jump, path) \<in> set (fst c). length path \<le> length cities + 1)"
  proof (intro allI impI, elim conjE)
    fix start rest c
    assume "cities = start # rest" "reaches (ucs_step cities d) (ucs_init start) c"
    then show "\<forall>(max_jump, path) \<in> set (fst c). length path \<le> length cities + 1"
      by (rule u)
  qed
  have A: "\<forall>start rest c. cities = start # rest \<and> reaches (astar_step cities d) (astar_init start) c \<longrightarrow>
      (\<forall>(cost, path, max_jump) \<in> set (fst c). length path \<le> length cities + 1)"
  proof (intro allI impI, elim conjE)
    fix start rest c
    assume "cities = start # rest" "reaches (astar_step cities d) (astar_init start) c"
    then show "\<forall>(cost, path, max_jump) \<in> set (fst c). length path \<le> length cities + 1"
      by (rule a)
  qed
  show ?thesis
    by (intro conjI) (rule f1 f2 f3 B U A)+
qed

theorem solve_terminates_witness:
  "reaches (bfs_step [''A'', ''B''] example_table) (bfs_init ''A'')
     ([(''B'', [''A'', ''B''], 1)], (None, maxsize)) \<and>
   (\<exists>r. bfs_tsp [''A'', ''B''] example_table = Some r) \<and>
   (\<exists>r. ucs_solve [''A'', ''B''] example_table = Some r) \<and>
   (\<exists>r. astar_solve [''A'', ''B''] example_table = Some r) \<and>
   length [''A'', ''B''] \<le> length [''A'', ''B''] + 1"
proof -
  have s: "bfs_step [''A'', ''B''] example_table (bfs_init ''A'') =
      Continue ([(''B'', [''A'', ''B''], 1)], (None, maxsize))"
    by (simp add: bfs_init_def example_table_def)
  have r: "reaches (bfs_step [''A'', ''B''] example_table) (bfs_init ''A'')
      ([(''B'', [''A'', ''B''], 1)], (None, maxsize))"
    using reaches_start [of "bfs_step [''A'', ''B''] example_table" "bfs_init ''A''"] s
    by (rule reaches_step)
  note th = solve_terminates [of "[''A'', ''B'']" example_table]
  note th1 = th [THEN conjunct1]
  note th2 = th [THEN conjunct2, THEN conjunct1]
  note th3 = th [THEN conjunct2, THEN conjunct2, THEN conjunct1]
  note th4 = th [THEN conjunct2, THEN conjunct2, THEN conjunct2, THEN conjunct1, rule_format,
    OF conjI, OF refl r]
  from th4 have b: "length [''A'', ''B''] \<le> length [''A'', ''B''] + 1" by simp
  show ?thesis
    by (intro conjI) (rule r th1 th2 th3 b)+
qed

lemma tied_load: "load_city_distances [''A'', ''B'', ''C''] tied_matrix = Inr tied_table"
  by (simp add: load_city_distances_def tied_matrix_def tied_table_def)

lemma tied_bfs:
  "bfs_tsp [''A'', ''B'', ''C''] tied_table = Some (Inr (Some [''A'', ''B'', ''C'', ''A''], 5))"
  by (simp add: bfs_tsp_def bfs_init_def run.simps tied_table_def maxsize_def)

lemma tied_astar:
  "astar_solve [''A'', ''B'', ''C''] tied_table = Some (Inr (Some [''A'', ''C'', ''B'', ''A''], 5))"
  by (simp add: astar_solve_def astar_init_def run.simps tied_table_def maxsize_def
      heappush_def astar_remaining_def heuristic_def)



text \<open>
  C1: for a non-empty list of cities and a square matrix, the table is built and the three
  solve functions, run on it, return the same longest-jump value; the tours they return
  may differ.
\<close>

theorem strategies_agree:
  assumes "cities \<noteq> []" "square_matrix cities m"
  shows "\<exists>d p1 p2 p3 v.
     load_city_distances cities m = Inr d \<and>
     bfs_tsp cities d = Some (Inr (p1, v)) \<and>
     ucs_solve cities d = Some (Inr (p2, v)) \<and>
     astar_solve cities d = Some (Inr (p3, v))"
proof -
  from load_covers [OF square_covers [OF assms(2)]] obtain d where
    d: "load_city_distances cities m = Inr d" by blast
  from solve_optimal [OF assms(1) load_total [OF d]] obtain b1 b2 b3 where
    r: "bfs_tsp cities d = Some (Inr b1)" "ucs_solve cities d = Some (Inr b2)"
      "astar_solve cities d = Some (Inr b3)"
    and o: "optimal cities d b1" "optimal cities d b2" "optimal cities d b3"
    by blast
  from o have "snd b2 = snd b1" "snd b3 = snd b1" by (auto dest: optimal_unique)
  then have "b2 = (fst b2, snd b1)" "b3 = (fst b3, snd b1)" "b1 = (fst b1, snd b1)"
    by (auto simp: prod_eq_iff)
  with d r show ?thesis by metis
qed

theorem strategies_agree_witness:
  "square_matrix [''A'', ''B'', ''C''] tied_matrix \<and>
   load_city_distances [''A'', ''B'', ''C''] tied_matrix = Inr tied_table \<and>
   bfs_tsp [''A'', ''B'', ''C''] tied_table = Some (Inr (Some [''A'', ''B'', ''C'', ''A''], 5)) \<and>
   astar_solve [''A'', ''B'', ''C''] tied_table = Some (Inr (Some [''A'', ''C'', ''B'', ''A''], 5)) \<and>
   (\<exists>p. ucs_solve [''A'', ''B'', ''C''] tied_table = Some (Inr (p, 5)))"
proof -
  have ne: "[''A'', ''B'', ''C''] \<noteq> []" by simp
  have sq: "square_matrix [''A'', ''B'', ''C''] tied_matrix"
    by (simp add: square_matrix_def tied_matrix_def)
  from strategies_agree [OF ne sq] obtain d p1 p2 p3 v where
    "load_city_distances [''A'', ''B'', ''C''] tied_matrix = Inr d"
    "bfs_tsp [''A'', ''B'', ''C''] d = Some (Inr (p1, v))"
    "ucs_solve [''A'', ''B'', ''C''] d = Some (Inr (p2, v))"
    by blast
  with tied_load tied_bfs have "ucs_solve [''A'', ''B'', ''C''] tied_table = Some (Inr (p2, 5))"
    by simp
  with sq tied_load tied_bfs tied_astar show ?thesis by blast
qed

lemma pending_max_edge:
  assumes "pending_ok cities d A" "(p, mj) \<in> A" "cities \<noteq> []"
    "table_total cities d" "table_nonneg cities d"
  shows "mj = max_edge d p"
proof -
  from assms(1,2) have vp: "valid_path cities p" and mj: "mj = running_max d p"
    by (auto simp: pending_ok_def)
  from running_max_max_edge [OF assms(4,5) valid_path_subset [OF vp assms(3)]] mj
  show ?thesis by simp
qed

lemma pending_goal:
  assumes "pending_ok cities d A" "(p, mj) \<in> A" "cities \<noteq> []"
  shows "(length p = length cities + 1 \<and> last p = hd p) = is_goal cities p"
    and "ucs_complete cities p = Inr (is_goal cities p)"
    and "p \<noteq> []"
proof -
  from assms(1,2) have vp: "valid_path cities p" by (auto simp: pending_ok_def)
  from valid_complete_iff [OF vp] valid_goal_iff [OF vp assms(3)]
  show "(length p = length cities + 1 \<and> last p = hd p) = is_goal cities p" by simp
  from valid_ucs_complete [OF vp assms(3)] valid_goal_iff [OF vp assms(3)]
  show "ucs_complete cities p = Inr (is_goal cities p)" by simp
  from valid_path_in [OF vp assms(3)] show "p \<noteq> []" by simp
qed

lemma bfs_inv_pending:
  "bfs_inv cities d c \<Longrightarrow> (cur, p, mj) \<in> set (fst c) \<Longrightarrow>
   pending_ok cities d (bfs_abs ` set (fst c)) \<and> (p, mj) \<in> bfs_abs ` set (fst c) \<and> cities \<noteq> []"
  by (force simp: bfs_inv_def search_inv_def bfs_abs_def)

lemma ucs_inv_pending:
  "ucs_inv cities d c \<Longrightarrow> (mj, p) \<in> set (fst c) \<Longrightarrow>
   pending_ok cities d (ucs_abs ` set (fst c)) \<and> (p, mj) \<in> ucs_abs ` set (fst c) \<and> cities \<noteq> []"
  by (force simp: ucs_inv_def search_inv_def ucs_abs_def)

lemma astar_inv_pending:
  "astar_inv cities d c \<Longrightarrow> (cost, p, mj) \<in> set (fst c) \<Longrightarrow>
   pending_ok cities d (astar_abs ` set (fst c)) \<and> (p, mj) \<in> astar_abs ` set (fst c) \<and> cities \<noteq> []"
  by (force simp: astar_inv_def search_inv_def astar_abs_def)

lemma bfs_step_goal:
  assumes "bfs_inv cities d ((cur, p, mj) # q, (bp, mmj))"
  shows "bfs_step cities d ((cur, p, mj) # q, (bp, mmj)) =
     (if is_goal cities p
      then Continue (q, if mj < mmj then (Some p, mj) else (bp, mmj))
      else (case bfs_expand cities d (cur, p, mj) cities of
              Inl e \<Rightarrow> Raise e
            | Inr new \<Rightarrow> Continue (q @ new, (bp, mmj))))"
proof -
  from bfs_inv_pending [OF assms, of cur p mj]
  have "pending_ok cities d (bfs_abs ` set (fst ((cur, p, mj) # q, (bp, mmj))))"
    "(p, mj) \<in> bfs_abs ` set (fst ((cur, p, mj) # q, (bp, mmj)))" "cities \<noteq> []"
    by simp_all
  from pending_goal(1) [OF this] show ?thesis by simp
qed

lemma ucs_step_goal:
  assumes "ucs_inv cities d ((mj, p) # q, (bp, mmj))"
  shows "ucs_step cities d ((mj, p) # q, (bp, mmj)) =
     (if is_goal cities p
      then Continue (q, if mj < mmj then (Some p, mj) else (bp, mmj))
      else (case ucs_expand cities d (mj, p) cities of
              Inl e \<Rightarrow> Raise e
            | Inr new \<Rightarrow> Continue (fold heappush new q, (bp, mmj))))"
proof -
  from ucs_inv_pending [OF assms, of mj p]
  have "pending_ok cities d (ucs_abs ` set (fst ((mj, p) # q, (bp, mmj))))"
    "(p, mj) \<in> ucs_abs ` set (fst ((mj, p) # q, (bp, mmj)))" "cities \<noteq> []"
    by simp_all
  from pending_goal(2,3) [OF this] show ?thesis by simp
qed

lemma astar_step_goal:
  assumes "astar_inv cities d ((cost, p, mj) # q, (bp, mmj))"
  shows "astar_step cities d ((cost, p, mj) # q, (bp, mmj)) =
     (if is_goal cities p
      then Continue (q, if mj < mmj then (Some p, mj) else (bp, mmj))
      else (case astar_expand d (cost, p, mj) (astar_remaining cities p) (astar_remaining cities p) of
              Inl e \<Rightarrow> Raise e
            | Inr new \<Rightarrow> Continue (fold heappush new q, (bp, mmj))))"
proof -
  from astar_inv_pending [OF assms, of cost p mj]
  have "pending_ok cities d (astar_abs ` set (fst ((cost, p, mj) # q, (bp, mmj))))"
    "(p, mj) \<in> astar_abs ` set (fst ((cost, p, mj) # q, (bp, mmj)))" "cities \<noteq> []"
    by simp_all
  from pending_goal(1,3) [OF this] show ?thesis by simp
qed

lemma example_bfs:
  "bfs_tsp [''A'', ''B''] example_table = Some (Inr (Some [''A'', ''B'', ''A''], 2))"
  by (simp add: bfs_tsp_def bfs_init_def run.simps example_table_def maxsize_def)

lemma example_bfs_reaches:
  "reaches (bfs_step [''A'', ''B''] example_table) (bfs_init ''A'')
     ([(''A'', [''A'', ''B'', ''A''], 2)], (None, maxsize))"
proof -
  let ?body = "bfs_step [''A'', ''B''] example_table"
  have s1: "?body (bfs_init ''A'') = Continue ([(''B'', [''A'', ''B''], 1)], (None, maxsize))"
    by (simp add: bfs_init_def example_table_def)
  have s2: "?body ([(''B'', [''A'', ''B''], 1)], (None, maxsize)) =
      Continue ([(''A'', [''A'', ''B'', ''A''], 2)], (None, maxsize))"
    by (simp add: example_table_def)
  have "reaches ?body (bfs_init ''A'') ([(''B'', [''A'', ''B''], 1)], (None, maxsize))"
    using reaches_start [of ?body "bfs_init ''A''"] s1 by (rule reaches_step)
  then show ?thesis using s2 by (rule reaches_step)
qed

lemma negative_load:
  "load_city_distances [''A'', ''B'', ''C''] negative_matrix = Inr negative_table"
  by (simp add: load_city_distances_def negative_matrix_def negative_table_def)

lemma negative_bfs:
  "bfs_tsp [''A'', ''B'', ''C''] negative_table = Some (Inr (Some [''A'', ''B'', ''C'', ''A''], 0))"
  by (simp add: bfs_tsp_def bfs_init_def run.simps negative_table_def maxsize_def)

lemma negative_ucs:
  "ucs_solve [''A'', ''B'', ''C''] negative_table = Some (Inr (Some [''A'', ''B'', ''C'', ''A''], 0))"
  by (simp add: ucs_solve_def ucs_init_def run.simps negative_table_def maxsize_def heappush_def
      ucs_complete_def)

lemma negative_astar:
  "astar_solve [''A'', ''B'', ''C''] negative_table = Some (Inr (Some [''A'', ''B'', ''C'', ''A''], 0))"
  by (simp add: astar_solve_def astar_init_def run.simps negative_table_def maxsize_def
      heappush_def astar_remaining_def heuristic_def)

lemma negative_max_edge: "max_edge negative_table [''A'', ''B'', ''C'', ''A''] = - 1"
  by (simp add: max_edge_def jumps_def negative_table_def)

lemma optimal_value: "optimal cities d (Some p, v) \<Longrightarrow> v = max 0 (max_edge d p)"
  by (auto simp: optimal_def best_ok_def running_max_max0)

lemma pending_running:
  "pending_ok cities d A \<Longrightarrow> (p, mj) \<in> A \<Longrightarrow> mj = max 0 (max_edge d p)"
  by (auto simp: pending_ok_def running_max_max0)

lemma nonneg_max_edge:
  assumes "cities = start # rest" "table_total cities d" "table_nonneg cities d"
  shows "(\<forall>p v. bfs_tsp cities d = Some (Inr (Some p, v)) \<longrightarrow> max_edge d p = v) \<and>
         (\<forall>p v. ucs_solve cities d = Some (Inr (Some p, v)) \<longrightarrow> max_edge d p = v) \<and>
         (\<forall>p v. astar_solve cities d = Some (Inr (Some p, v)) \<longrightarrow> max_edge d p = v) \<and>
         (\<forall>c. reaches (bfs_step cities d) (bfs_init start) c \<longrightarrow>
            (\<forall>(current_city, path, max_jump) \<in> set (fst c). max_jump = max_edge d path)) \<and>
         (\<forall>c. reaches (ucs_step cities d) (ucs_init start) c \<longrightarrow>
            (\<forall>(max_jump, path) \<in> set (fst c). max_jump = max_edge d path)) \<and>
         (\<forall>c. reaches (astar_step cities d) (astar_init start) c \<longrightarrow>
            (\<forall>(cost, path, max_jump) \<in> set (fst c). max_jump = max_edge d path))"
proof -
  from assms(1) have ne: "cities \<noteq> []" by simp
  from solve_optimal [OF ne assms(2)] obtain b1 b2 b3 where
    r: "bfs_tsp cities d = Some (Inr b1)" "ucs_solve cities d = Some (Inr b2)"
      "astar_solve cities d = Some (Inr b3)"
    and o: "optimal cities d b1" "optimal cities d b2" "optimal cities d b3"
    by blast
  have ret: "max_edge d p = v" if "optimal cities d b" "b = (Some p, v)" for b p v
    using optimal_max_edge [of cities d "Some p" v] that ne assms(2,3) by simp
  have R1: "\<forall>p v. bfs_tsp cities d = Some (Inr (Some p, v)) \<longrightarrow> max_edge d p = v"
    using r(1) o(1) ret by auto
  have R2: "\<forall>p v. ucs_solve cities d = Some (Inr (Some p, v)) \<longrightarrow> max_edge d p = v"
    using r(2) o(2) ret by auto
  have R3: "\<forall>p v. astar_solve cities d = Some (Inr (Some p, v)) \<longrightarrow> max_edge d p = v"
    using r(3) o(3) ret by auto
  have B: "\<forall>c. reaches (bfs_step cities d) (bfs_init start) c \<longrightarrow>
      (\<forall>(current_city, path, max_jump) \<in> set (fst c). max_jump = max_edge d path)"
  proof (intro allI impI, clarify)
    fix c cur p mj
    assume "reaches (bfs_step cities d) (bfs_init start) c" "(cur, p, mj) \<in> set (fst c)"
    with bfs_inv_pending [OF bfs_reaches_inv [OF assms(1)]]
    have "pending_ok cities d (bfs_abs ` set (fst c))" "(p, mj) \<in> bfs_abs ` set (fst c)"
      by blast+
    then show "mj = max_edge d p" using ne assms(2,3) by (rule pending_max_edge)
  qed
  have U: "\<forall>c. reaches (ucs_step cities d) (ucs_init start) c \<longrightarrow>
      (\<forall>(max_jump, path) \<in> set (fst c). max_jump = max_edge d path)"
  proof (intro allI impI, clarify)
    fix c p mj
    assume "reaches (ucs_step cities d) (ucs_init start) c" "(mj, p) \<in> set (fst c)"
    with ucs_inv_pending [OF ucs_reaches_inv [OF assms(1)]]
    have "pending_ok cities d (ucs_abs ` set (fst c))" "(p, mj) \<in> ucs_abs ` set (fst c)"
      by blast+
    then show "mj = max_edge d p" using ne assms(2,3) by (rule pending_max_edge)
  qed
  have A: "\<forall>c. reaches (astar_step cities d) (astar_init start) c \<longrightarrow>
      (\<forall>(cost, path, max_jump) \<in> set (fst c). max_jump = max_edge d path)"
  proof (intro allI impI, clarify)
    fix c cost p mj
    assume "reaches (astar_step cities d) (astar_init start) c" "(cost, p, mj) \<in> set (fst c)"
    with astar_inv_pending [OF astar_reaches_inv [OF assms(1)]]
    have "pending_ok cities d (astar_abs ` set (fst c))" "(p, mj) \<in> astar_abs ` set (fst c)"
      by blast+
    then show "mj = max_edge d p" using ne assms(2,3) by (rule pending_max_edge)
  qed
  show ?thesis
    by (intro conjI) (rule R1 R2 R3 B U A)+
qed

text \<open>
  C4 as stated does not hold: the matrix with negative weights is loaded, all three solve
  functions return the tour A, B, C, A with the value 0, and the maximum of the table's
  weights over the consecutive pairs of that tour is -1.
\<close>

theorem bottleneck_not_max_edge:
  "load_city_distances [''A'', ''B'', ''C''] negative_matrix = Inr negative_table \<and>
   bfs_tsp [''A'', ''B'', ''C''] negative_table = Some (Inr (Some [''A'', ''B'', ''C'', ''A''], 0)) \<and>
   ucs_solve [''A'', ''B'', ''C''] negative_table = Some (Inr (Some [''A'', ''B'', ''C'', ''A''], 0)) \<and>
   astar_solve [''A'', ''B'', ''C''] negative_table = Some (Inr (Some [''A'', ''B'', ''C'', ''A''], 0)) \<and>
   max_edge negative_table [''A'', ''B'', ''C'', ''A''] = - 1"
  by (intro conjI) (rule negative_load negative_bfs negative_ucs negative_astar negative_max_edge)+

text \<open>
  C4, amended: the value returned with a tour is the maximum of 0 and the table's weights
  over the consecutive pairs of that tour, and every entry that a search holds carries
  the maximum of 0 and the edge weights of its path (0 for the one-city path); with a
  table that has a non-negative entry for every ordered pair of cities this is the
  maximum edge weight itself.
\<close>

theorem bottleneck_is_running_max:
  assumes "cities = start # rest"
  shows "(\<forall>p v. bfs_tsp cities d = Some (Inr (Some p, v)) \<longrightarrow> v = max 0 (max_edge d p)) \<and>
         (\<forall>p v. ucs_solve cities d = Some (Inr (Some p, v)) \<longrightarrow> v = max 0 (max_edge d p)) \<and>
         (\<forall>p v. astar_solve cities d = Some (Inr (Some p, v)) \<longrightarrow> v = max 0 (max_edge d p)) \<and>
         (\<forall>c. reaches (bfs_step cities d) (bfs_init start) c \<longrightarrow>
            (\<forall>(current_city, path, max_jump) \<in> set (fst c).
               max_jump = max 0 (max_edge d path))) \<and>
         (\<forall>c. reaches (ucs_step cities d) (ucs_init start) c \<longrightarrow>
            (\<forall>(max_jump, path) \<in> set (fst c). max_jump = max 0 (max_edge d path))) \<and>
         (\<forall>c. reaches (astar_step cities d) (astar_init start) c \<longrightarrow>
            (\<forall>(cost, path, max_jump) \<in> set (fst c). max_jump = max 0 (max_edge d path))) \<and>
         (table_total cities d \<and> table_nonneg cities d \<longrightarrow>
            (\<forall>p v. bfs_tsp cities d = Some (Inr (Some p, v)) \<longrightarrow> max_edge d p = v) \<and>
            (\<forall>p v. ucs_solve cities d = Some (Inr (Some p, v)) \<longrightarrow> max_edge d p = v) \<and>
            (\<forall>p v. astar_solve cities d = Some (Inr (Some p, v)) \<longrightarrow> max_edge d p = v) \<and>
            (\<forall>c. reaches (bfs_step cities d) (bfs_init start) c \<longrightarrow>
               (\<forall>(current_city, path, max_jump) \<in> set (fst c). max_jump = max_edge d path)) \<and>
            (\<forall>c. reaches (ucs_step cities d) (ucs_init start) c \<longrightarrow>
               (\<forall>(max_jump, path) \<in> set (fst c). max_jump = max_edge d path)) \<and>
            (\<forall>c. reaches (astar_step cities d) (astar_init start) c \<longrightarrow>
               (\<forall>(cost, path, max_jump) \<in> set (fst c). max_jump = max_edge d path)))"
proof -
  have inr: "optimal cities d best"
    if "f = Some (Inr best)"
      "\<exists>r. f = Some r \<and> (case r of Inr b \<Rightarrow> optimal cities d b | Inl e \<Rightarrow> \<not> table_total cities d)"
    for f :: "(error + 'a best) option" and best
    using that by auto
  have R1: "\<forall>p v. bfs_tsp cities d = Some (Inr (Some p, v)) \<longrightarrow> v = max 0 (max_edge d p)"
    using inr [OF _ bfs_result [OF assms, of d]] by (blast intro: optimal_value)
  have R2: "\<forall>p v. ucs_solve cities d = Some (Inr (Some p, v)) \<longrightarrow> v = max 0 (max_edge d p)"
    using inr [OF _ ucs_result [OF assms, of d]] by (blast intro: optimal_value)
  have R3: "\<forall>p v. astar_solve cities d = Some (Inr (Some p, v)) \<longrightarrow> v = max 0 (max_edge d p)"
    using inr [OF _ astar_result [OF assms, of d]] by (blast intro: optimal_value)
  have B: "\<forall>c. reaches (bfs_step cities d) (bfs_init start) c \<longrightarrow>
      (\<forall>(current_city, path, max_jump) \<in> set (fst c). max_jump = max 0 (max_edge d path))"
  proof (intro allI impI, clarify)
    fix c cur p mj
    assume "reaches (bfs_step cities d) (bfs_init start) c" "(cur, p, mj) \<in> set (fst c)"
    with bfs_inv_pending [OF bfs_reaches_inv [OF assms]]
    have "pending_ok cities d (bfs_abs ` set (fst c))" "(p, mj) \<in> bfs_abs ` set (fst c)"
      by blast+
    then show "mj = max 0 (max_edge d p)" by (rule pending_running)
  qed
  have U: "\<forall>c. reaches (ucs_step cities d) (ucs_init start) c \<longrightarrow>
      (\<forall>(max_jump, path) \<in> set (fst c). max_jump = max 0 (max_edge d path))"
  proof (intro allI impI, clarify)
    fix c p mj
    assume "reaches (ucs_step cities d) (ucs_init start) c" "(mj, p) \<in> set (fst c)"
    with ucs_inv_pending [OF ucs_reaches_inv [OF assms]]
    have "pending_ok cities d (ucs_abs ` set (fst c))" "(p, mj) \<in> ucs_abs ` set (fst c)"
      by blast+
    then show "mj = max 0 (max_edge d p)" by (rule pending_running)
  qed
  have A: "\<forall>c. reaches (astar_step cities d) (astar_init start) c \<longrightarrow>
      (\<forall>(cost, path, max_jump) \<in> set (fst c). max_jump = max 0 (max_edge d path))"
  proof (intro allI impI, clarify)
    fix c cost p mj
    assume "reaches (astar_step cities d) (astar_init start) c" "(cost, p, mj) \<in> set (fst c)"
    with astar_inv_pending [OF astar_reaches_inv [OF assms]]
    have "pending_ok cities d (astar_abs ` set (fst c))" "(p, mj) \<in> astar_abs ` set (fst c)"
      by blast+
    then show "mj = max 0 (max_edge d p)" by (rule pending_running)
  qed
  show ?thesis
  proof (intro conjI impI)
    assume "table_total cities d \<and> table_nonneg cities d"
    then have tn: "table_total cities d" "table_nonneg cities d" by simp_all
    note nn = nonneg_max_edge [OF assms tn]
    show "\<forall>p v. bfs_tsp cities d = Some (Inr (Some p, v)) \<longrightarrow> max_edge d p = v"
      by (rule nn [THEN conjunct1])
    show "\<forall>p v. ucs_solve cities d = Some (Inr (Some p, v)) \<longrightarrow> max_edge d p = v"
      by (rule nn [THEN conjunct2, THEN conjunct1])
    show "\<forall>p v. astar_solve cities d = Some (Inr (Some p, v)) \<longrightarrow> max_edge d p = v"
      by (rule nn [THEN conjunct2, THEN conjunct2, THEN conjunct1])
    show "\<forall>c. reaches (bfs_step cities d) (bfs_init start) c \<longrightarrow>
        (\<forall>(current_city, path, max_jump) \<in> set (fst c). max_jump = max_edge d path)"
      by (rule nn [THEN conjunct2, THEN conjunct2, THEN conjunct2, THEN conjunct1])
    show "\<forall>c. reaches (ucs_step cities d) (ucs_init start) c \<longrightarrow>
        (\<forall>(max_jump, path) \<in> set (fst c). max_jump = max_edge d path)"
      by (rule nn [THEN conjunct2, THEN conjunct2, THEN conjunct2, THEN conjunct2, THEN conjunct1])
    show "\<forall>c. reaches (astar_step cities d) (astar_init start) c \<longrightarrow>
        (\<forall>(cost, path, max_jump) \<in> set (fst c). max_jump = max_edge d path)"
      by (rule nn [THEN conjunct2, THEN conjunct2, THEN conjunct2, THEN conjunct2, THEN conjunct2])
  qed (rule R1 R2 R3 B U A)+
qed

theorem bottleneck_is_running_max_witness:
  "bfs_tsp [''A'', ''B'', ''C''] negative_table = Some (Inr (Some [''A'', ''B'', ''C'', ''A''], 0)) \<and>
   (0 :: int) = max 0 (max_edge negative_table [''A'', ''B'', ''C'', ''A'']) \<and>
   table_total [''A'', ''B''] example_table \<and> table_nonneg [''A'', ''B''] example_table \<and>
   bfs_tsp [''A'', ''B''] example_table = Some (Inr (Some [''A'', ''B'', ''A''], 2)) \<and>
   max_edge example_table [''A'', ''B'', ''A''] = 2"
proof -
  note th = bottleneck_is_running_max [OF refl, of "''A''" "[''B'', ''C'']" negative_table]
  from th [THEN conjunct1, rule_format, OF negative_bfs]
  have g: "(0 :: int) = max 0 (max_edge negative_table [''A'', ''B'', ''C'', ''A''])" .
  note th' = bottleneck_is_running_max [OF refl, of "''A''" "[''B'']" example_table]
  note nn = th' [THEN conjunct2, THEN conjunct2, THEN conjunct2, THEN conjunct2, THEN conjunct2,
    THEN conjunct2, rule_format, OF conjI [OF example_total example_nonneg]]
  from nn [THEN conjunct1, rule_format, OF example_bfs]
  have n: "max_edge example_table [''A'', ''B'', ''A''] = 2" .
  show ?thesis
    by (intro conjI) (rule negative_bfs g example_total example_nonneg example_bfs n)+
qed

text \<open>
  C5: on every entry that a search holds, the completeness test of the loop is the goal
  test of the specification; a popped goal entry is compared with the best found so far,
  which is replaced only by a strictly smaller value, and is dropped without expansion,
  and any other popped entry is expanded with the best left as it is.
\<close>

theorem complete_test_is_goal_test:
  assumes "cities = start # rest"
  shows "(\<forall>c. reaches (bfs_step cities d) (bfs_init start) c \<longrightarrow>
            (\<forall>(current_city, path, max_jump) \<in> set (fst c).
               (length path = length cities + 1 \<and> last path = hd path) = is_goal cities path)) \<and>
         (\<forall>c. reaches (ucs_step cities d) (ucs_init start) c \<longrightarrow>
            (\<forall>(max_jump, path) \<in> set (fst c).
               ucs_complete cities path = Inr (is_goal cities path))) \<and>
         (\<forall>c. reaches (astar_step cities d) (astar_init start) c \<longrightarrow>
            (\<forall>(cost, path, max_jump) \<in> set (fst c).
               (length path = length cities + 1 \<and> last path = hd path) = is_goal cities path)) \<and>
         (\<forall>current_city path max_jump queue best_path min_max_jump.
            reaches (bfs_step cities d) (bfs_init start)
              ((current_city, path, max_jump) # queue, (best_path, min_max_jump)) \<longrightarrow>
            bfs_step cities d ((current_city, path, max_jump) # queue, (best_path, min_max_jump)) =
              (if is_goal cities path
               then Continue (queue,
                 if max_jump < min_max_jump then (Some path, max_jump) else (best_path, min_max_jump))
               else (case bfs_expand cities d (current_city, path, max_jump) cities of
                       Inl e \<Rightarrow> Raise e
                     | Inr new \<Rightarrow> Continue (queue @ new, (best_path, min_max_jump))))) \<and>
         (\<forall>path max_jump frontier best_path min_max_jump.
            reaches (ucs_step cities d) (ucs_init start)
              ((max_jump, path) # frontier, (best_path, min_max_jump)) \<longrightarrow>
            ucs_step cities d ((max_jump, path) # frontier, (best_path, min_max_jump)) =
              (if is_goal cities path
               then Continue (frontier,
                 if max_jump < min_max_jump then (Some path, max_jump) else (best_path, min_max_jump))
               else (case ucs_expand cities d (max_jump, path) cities of
                       Inl e \<Rightarrow> Raise e
                     | Inr new \<Rightarrow> Continue (fold heappush new frontier, (best_path, min_max_jump))))) \<and>
         (\<forall>cost path max_jump open_set best_path min_max_jump.
            reaches (astar_step cities d) (astar_init start)
              ((cost, path, max_jump) # open_set, (best_path, min_max_jump)) \<longrightarrow>
            astar_step cities d ((cost, path, max_jump) # open_set, (best_path, min_max_jump)) =
              (if is_goal cities path
               then Continue (open_set,
                 if max_jump < min_max_jump then (Some path, max_jump) else (best_path, min_max_jump))
               else (case astar_expand d (cost, path, max_jump)
                            (astar_remaining cities path) (astar_remaining cities path) of
                       Inl e \<Rightarrow> Raise e
                     | Inr new \<Rightarrow> Continue (fold heappush new open_set, (best_path, min_max_jump)))))"
proof -
  have B: "\<forall>c. reaches (bfs_step cities d) (bfs_init start) c \<longrightarrow>
      (\<forall>(current_city, path, max_jump) \<in> set (fst c).
         (length path = length cities + 1 \<and> last path = hd path) = is_goal cities path)"
  proof (intro allI impI, clarify)
    fix c cur p mj
    assume "reaches (bfs_step cities d) (bfs_init start) c" "(cur, p, mj) \<in> set (fst c)"
    with bfs_inv_pending [OF bfs_reaches_inv [OF assms]]
    have "pending_ok cities d (bfs_abs ` set (fst c))" "(p, mj) \<in> bfs_abs ` set (fst c)"
      "cities \<noteq> []" by blast+
    then show "(length p = length cities + 1 \<and> last p = hd p) = is_goal cities p"
      by (rule pending_goal(1))
  qed
  have U: "\<forall>c. reaches (ucs_step cities d) (ucs_init start) c \<longrightarrow>
      (\<forall>(max_jump, path) \<in> set (fst c). ucs_complete cities path = Inr (is_goal cities path))"
  proof (intro allI impI, clarify)
    fix c p mj
    assume "reaches (ucs_step cities d) (ucs_init start) c" "(mj, p) \<in> set (fst c)"
    with ucs_inv_pending [OF ucs_reaches_inv [OF assms]]
    have "pending_ok cities d (ucs_abs ` set (fst c))" "(p, mj) \<in> ucs_abs ` set (fst c)"
      "cities \<noteq> []" by blast+
    then show "ucs_complete cities p = Inr (is_goal cities p)"
      by (rule pending_goal(2))
  qed
  have A: "\<forall>c. reaches (astar_step cities d) (astar_init start) c \<longrightarrow>
      (\<forall>(cost, path, max_jump) \<in> set (fst c).
         (length path = length cities + 1 \<and> last path = hd path) = is_goal cities path)"
  proof (intro allI impI, clarify)
    fix c cost p mj
    assume "reaches (astar_step cities d) (astar_init start) c" "(cost, p, mj) \<in> set (fst c)"
    with astar_inv_pending [OF astar_reaches_inv [OF assms]]
    have "pending_ok cities d (astar_abs ` set (fst c))" "(p, mj) \<in> astar_abs ` set (fst c)"
      "cities \<noteq> []" by blast+
    then show "(length p = length cities + 1 \<and> last p = hd p) = is_goal cities p"
      by (rule pending_goal(1))
  qed
  show ?thesis
  proof (intro conjI)
    show "\<forall>c. reaches (bfs_step cities d) (bfs_init start) c \<longrightarrow>
      (\<forall>(current_city, path, max_jump) \<in> set (fst c).
         (length path = length cities + 1 \<and> last path = hd path) = is_goal cities path)"
      by (rule B)
    show "\<forall>c. reaches (ucs_step cities d) (ucs_init start) c \<longrightarrow>
      (\<forall>(max_jump, path) \<in> set (fst c). ucs_complete cities path = Inr (is_goal cities path))"
      by (rule U)
    show "\<forall>c. reaches (astar_step cities d) (astar_init start) c \<longrightarrow>
      (\<forall>(cost, path, max_jump) \<in> set (fst c).
         (length path = length cities + 1 \<and> last path = hd path) = is_goal cities path)"
      by (rule A)
  qed (intro allI impI, erule bfs_step_goal [OF bfs_reaches_inv [OF assms]]
      ucs_step_goal [OF ucs_reaches_inv [OF assms]]
      astar_step_goal [OF astar_reaches_inv [OF assms]])+
qed

theorem complete_test_is_goal_test_witness:
  "reaches (bfs_step [''A'', ''B''] example_table) (bfs_init ''A'')
     ([(''A'', [''A'', ''B'', ''A''], 2)], (None, maxsize)) \<and>
   is_goal [''A'', ''B''] [''A'', ''B'', ''A''] \<and>
   bfs_step [''A'', ''B''] example_table ([(''A'', [''A'', ''B'', ''A''], 2)], (None, maxsize)) =
     Continue ([], (Some [''A'', ''B'', ''A''], 2))"
proof -
  note th = complete_test_is_goal_test [OF refl, of "''A''" "[''B'']" example_table]
  note step = th [THEN conjunct2, THEN conjunct2, THEN conjunct2, THEN conjunct1, rule_format,
    OF example_bfs_reaches]
  have g: "is_goal [''A'', ''B''] [''A'', ''B'', ''A'']" by (simp add: is_goal_def)
  from step g have "bfs_step [''A'', ''B''] example_table
      ([(''A'', [''A'', ''B'', ''A''], 2)], (None, maxsize)) =
      Continue ([], (Some [''A'', ''B'', ''A''], 2))"
    by (simp add: maxsize_def)
  with example_bfs_reaches g show ?thesis by blast
qed

lemma example_ucs_reaches:
  "reaches (ucs_step [''A'', ''B''] example_table) (ucs_init ''A'')
     ([(2, [''A'', ''B'', ''A''])], (None, maxsize))"
proof -
  let ?body = "ucs_step [''A'', ''B''] example_table"
  have s1: "?body (ucs_init ''A'') = Continue ([(1, [''A'', ''B''])], (None, maxsize))"
    by (simp add: ucs_init_def example_table_def heappush_def ucs_complete_def)
  have s2: "?body ([(1, [''A'', ''B''])], (None, maxsize)) =
      Continue ([(2, [''A'', ''B'', ''A''])], (None, maxsize))"
    by (simp add: example_table_def heappush_def ucs_complete_def)
  have "reaches ?body (ucs_init ''A'') ([(1, [''A'', ''B''])], (None, maxsize))"
    using reaches_start [of ?body "ucs_init ''A''"] s1 by (rule reaches_step)
  then show ?thesis using s2 by (rule reaches_step)
qed

lemma example_goal: "is_goal [''A'', ''B''] [''A'', ''B'', ''A'']"
  by (simp add: is_goal_def)

text \<open>
  C6 as stated does not hold: a matrix with a negative weight, a matrix with more columns
  than cities and a matrix with more rows than cities are all loaded without an error.
\<close>

theorem load_city_distances_accepts_malformed:
  "load_city_distances [''A''] [[- 1]] = Inr (Map.empty((''A'', ''A'') \<mapsto> - 1)) \<and>
   load_city_distances [''A''] [[0, 7]] = Inr (Map.empty((''A'', ''A'') \<mapsto> 0)) \<and>
   load_city_distances [''A''] [[0], [3]] = Inr (Map.empty((''A'', ''A'') \<mapsto> 0))"
  by (simp add: load_city_distances_def)

text \<open>
  C6, amended: building the table raises \<^verbatim>\<open>IndexError\<close> exactly when the matrix lacks a
  row for some city or one of those rows has fewer entries than there are cities;
  otherwise it returns the table whose keys are the ordered pairs of cities, with the
  entry \<open>matrix[i][j]\<close> for the pair of the \<open>i\<close>-th and \<open>j\<close>-th city when the cities are
  distinct. Extra rows and columns and the sign of the weights are not checked.
\<close>

theorem load_city_distances_reads_matrix:
  "(matrix_covers city_names m \<longrightarrow>
      (\<exists>d. load_city_distances city_names m = Inr d \<and>
           dom d = set city_names \<times> set city_names \<and>
           (distinct city_names \<longrightarrow>
              (\<forall>i < length city_names. \<forall>j < length city_names.
                 d (city_names ! i, city_names ! j) = Some (m ! i ! j))))) \<and>
   (\<not> matrix_covers city_names m \<longrightarrow> load_city_distances city_names m = Inl IndexError)"
proof (intro conjI impI)
  assume "matrix_covers city_names m"
  from load_covers [OF this] obtain d where
    d: "load_city_distances city_names m = Inr d" "dom d = set city_names \<times> set city_names"
    by blast
  have "\<forall>i < length city_names. \<forall>j < length city_names.
      d (city_names ! i, city_names ! j) = Some (m ! i ! j)" if "distinct city_names"
    using load_value [OF d(1) that] by blast
  with d show "\<exists>d. load_city_distances city_names m = Inr d \<and>
      dom d = set city_names \<times> set city_names \<and>
      (distinct city_names \<longrightarrow>
         (\<forall>i < length city_names. \<forall>j < length city_names.
            d (city_names ! i, city_names ! j) = Some (m ! i ! j)))"
    by blast
next
  assume "\<not> matrix_covers city_names m"
  then show "load_city_distances city_names m = Inl IndexError" by (rule load_not_covers)
qed

theorem load_city_distances_reads_matrix_witness:
  "matrix_covers [''A''] [[- 1]] \<and> distinct [''A''] \<and>
   (\<exists>d. load_city_distances [''A''] [[- 1]] = Inr d \<and> d (''A'', ''A'') = Some (- 1)) \<and>
   \<not> matrix_covers [''A'', ''B''] [[0]] \<and>
   load_city_distances [''A'', ''B''] [[0]] = Inl IndexError"
proof -
  have c: "matrix_covers [''A''] [[- 1]]" by (simp add: matrix_covers_def)
  have n: "\<not> matrix_covers [''A'', ''B''] [[0]]"
  proof
    assume "matrix_covers [''A'', ''B''] [[0]]"
    then have "0 < length [''A'', ''B''] \<longrightarrow>
        0 < length [[0 :: int]] \<and> length [''A'', ''B''] \<le> length ([[0 :: int]] ! 0)"
      unfolding matrix_covers_def by blast
    then show False by simp
  qed
  note th1 = load_city_distances_reads_matrix [of "[''A'']" "[[- 1]]", THEN conjunct1, rule_format, OF c]
  note th2 = load_city_distances_reads_matrix [of "[''A'', ''B'']" "[[0]]", THEN conjunct2,
    rule_format, OF n]
  from th1 obtain d where d: "load_city_distances [''A''] [[- 1]] = Inr d"
    and v: "distinct [''A''] \<longrightarrow> (\<forall>i < length [''A'']. \<forall>j < length [''A''].
        d ([''A''] ! i, [''A''] ! j) = Some ([[- 1]] ! i ! j))"
    by blast
  from v have "d (''A'', ''A'') = Some (- 1)" by simp
  with d have "\<exists>d. load_city_distances [''A''] [[- 1]] = Inr d \<and> d (''A'', ''A'') = Some (- 1)"
    by blast
  with c n th2 show ?thesis by simp
qed

text \<open>
  C7 as stated does not hold: with no city each solve function raises \<^verbatim>\<open>IndexError\<close>, and
  with one city whose own distance is 5 the value returned is 5.
\<close>

theorem solve_degenerate_counterexample:
  "bfs_tsp ([] :: string list) Map.empty = Some (Inl IndexError) \<and>
   ucs_solve ([] :: string list) Map.empty = Some (Inl IndexError) \<and>
   astar_solve ([] :: string list) Map.empty = Some (Inl IndexError) \<and>
   bfs_tsp [''A''] (Map.empty((''A'', ''A'') \<mapsto> 5)) = Some (Inr (Some [''A'', ''A''], 5))"
  by (simp add: bfs_tsp_def ucs_solve_def astar_solve_def bfs_init_def run.simps maxsize_def)

text \<open>
  C7, amended: with no city each solve function raises \<^verbatim>\<open>IndexError\<close>; with one city
  whose own distance \<open>w\<close> is in the table (and below \<^verbatim>\<open>sys.maxsize\<close>) each returns the tour
  from the city to itself with the value \<open>max(0, w)\<close>, which is 0 when \<open>w\<close> is 0.
\<close>

theorem solve_degenerate:
  "bfs_tsp [] d = Some (Inl IndexError) \<and>
   ucs_solve [] d = Some (Inl IndexError) \<and>
   astar_solve [] d = Some (Inl IndexError) \<and>
   (d (a, a) = Some w \<and> max 0 w < maxsize \<longrightarrow>
      bfs_tsp [a] d = Some (Inr (Some [a, a], max 0 w)) \<and>
      ucs_solve [a] d = Some (Inr (Some [a, a], max 0 w)) \<and>
      astar_solve [a] d = Some (Inr (Some [a, a], max 0 w)))"
proof (intro conjI impI)
  show "bfs_tsp [] d = Some (Inl IndexError)" by (simp add: bfs_tsp_def)
  show "ucs_solve [] d = Some (Inl IndexError)" by (simp add: ucs_solve_def)
  show "astar_solve [] d = Some (Inl IndexError)" by (simp add: astar_solve_def)
next
  assume h: "d (a, a) = Some w \<and> max 0 w < maxsize"
  then show "bfs_tsp [a] d = Some (Inr (Some [a, a], max 0 w))"
    by (simp add: bfs_tsp_def bfs_init_def run.simps)
next
  assume h: "d (a, a) = Some w \<and> max 0 w < maxsize"
  then show "ucs_solve [a] d = Some (Inr (Some [a, a], max 0 w))"
    by (simp add: ucs_solve_def ucs_init_def run.simps heappush_def ucs_complete_def)
next
  assume h: "d (a, a) = Some w \<and> max 0 w < maxsize"
  then show "astar_solve [a] d = Some (Inr (Some [a, a], max 0 w))"
    by (simp add: astar_solve_def astar_init_def run.simps heappush_def astar_remaining_def
        heuristic_def)
qed

theorem solve_degenerate_witness:
  "(Map.empty((''A'', ''A'') \<mapsto> 0)) (''A'', ''A'') = Some (0 :: int) \<and> max 0 0 < maxsize \<and>
   bfs_tsp [''A''] (Map.empty((''A'', ''A'') \<mapsto> 0)) = Some (Inr (Some [''A'', ''A''], 0)) \<and>
   ucs_solve [''A''] (Map.empty((''A'', ''A'') \<mapsto> 0)) = Some (Inr (Some [''A'', ''A''], 0)) \<and>
   astar_solve [''A''] (Map.empty((''A'', ''A'') \<mapsto> 0)) = Some (Inr (Some [''A'', ''A''], 0))"
proof -
  have h: "(Map.empty((''A'', ''A'') \<mapsto> 0)) (''A'', ''A'') = Some (0 :: int) \<and> max 0 0 < maxsize"
    by (simp add: maxsize_def)
  note th = solve_degenerate [of "Map.empty((''A'', ''A'') \<mapsto> 0)" "''A''" 0,
    THEN conjunct2, THEN conjunct2, THEN conjunct2, rule_format, OF h]
  from h th show ?thesis by simp
qed

lemma detour_remaining: "astar_remaining [''A'', ''B'', ''C''] [''A'', ''B''] = [''C'']"
  by (simp add: astar_remaining_def)

text \<open>
  C8 against the code: the key under which the informed search enqueues the path
  A, B, C is 5, while the sum of the edges of that path is 3 and the estimate at C over
  the candidates of that expansion (C alone) is 0. The key of a successor is the key of its parent,
  which already holds the parent's estimate, plus the new edge and the new estimate.
\<close>

theorem astar_key_adds_parent_estimate:
  "astar_step [''A'', ''B'', ''C''] detour_table (astar_init ''A'') =
     Continue ([(3, [''A'', ''B''], 1), (6, [''A'', ''C''], 4)], (None, maxsize)) \<and>
   astar_step [''A'', ''B'', ''C''] detour_table
       ([(3, [''A'', ''B''], 1), (6, [''A'', ''C''], 4)], (None, maxsize)) =
     Continue ([(5, [''A'', ''B'', ''C''], 2), (6, [''A'', ''C''], 4)], (None, maxsize)) \<and>
   path_cost detour_table [''A'', ''B'', ''C''] = 3 \<and>
   heuristic detour_table [''C''] ''C'' = Inr 0"
  by (simp add: astar_init_def detour_table_def heappush_def astar_remaining_def heuristic_def
      path_cost_def jumps_def)

lemma huge_load: "load_city_distances [''A'', ''B''] huge_matrix = Inr huge_table"
  by (simp add: load_city_distances_def huge_matrix_def huge_table_def)

lemma huge_ucs_reaches:
  "reaches (ucs_step [''A'', ''B''] huge_table) (ucs_init ''A'')
     ([(9223372036854775808, [''A'', ''B'', ''A''])], (None, maxsize))"
proof -
  let ?body = "ucs_step [''A'', ''B''] huge_table"
  have s1: "?body (ucs_init ''A'') =
      Continue ([(9223372036854775808, [''A'', ''B''])], (None, maxsize))"
    by (simp add: ucs_init_def huge_table_def heappush_def ucs_complete_def)
  have s2: "?body ([(9223372036854775808, [''A'', ''B''])], (None, maxsize)) =
      Continue ([(9223372036854775808, [''A'', ''B'', ''A''])], (None, maxsize))"
    by (simp add: huge_table_def heappush_def ucs_complete_def)
  have "reaches ?body (ucs_init ''A'') ([(9223372036854775808, [''A'', ''B''])], (None, maxsize))"
    using reaches_start [of ?body "ucs_init ''A''"] s1 by (rule reaches_step)
  then show ?thesis using s2 by (rule reaches_step)
qed

lemma huge_ucs: "ucs_solve [''A'', ''B''] huge_table = Some (Inr (None, maxsize))"
  by (simp add: ucs_solve_def ucs_init_def run.simps huge_table_def maxsize_def heappush_def
      ucs_complete_def)

lemma huge_max_edge: "max_edge huge_table [''A'', ''B'', ''A''] = 9223372036854775808"
  by (simp add: max_edge_def jumps_def huge_table_def)

lemma ucs_first_goal:
  assumes c: "cities = start # rest" and tot: "table_total cities d"
    and r: "reaches (ucs_step cities d) (ucs_init start) ((k, p) # frontier, (None, maxsize))"
    and g: "is_goal cities p"
  shows "ucs_solve cities d =
     Some (Inr (if k < maxsize then (Some p, k) else (None, maxsize)))"
proof -
  let ?c = "((k, p) # frontier, (None :: 'a list option, maxsize))"
  let ?b = "if k < maxsize then (Some p, k) else (None, maxsize)"
  let ?c' = "(frontier, ?b)"
  from ucs_reaches_inv [OF c r] have inv: "ucs_inv cities d ?c" .
  from ucs_reaches_sorted [OF r] have "sorted ((k, p) # frontier)" by simp
  then have ab: "ucs_above k frontier" by (rule sorted_head_above)
  from ucs_step_goal [OF inv] g have step: "ucs_step cities d ?c = Continue ?c'" by simp
  from ucs_step_inv [OF inv step] have inv': "ucs_inv cities d ?c'" by simp
  from ab have "ucs_above (snd ?b) frontier" by (auto simp: ucs_above_def)
  with inv' have "ucs_settled cities d ?b ?c'" by (simp add: ucs_settled_def)
  from ucs_settled_run [OF this tot] have "run (ucs_step cities d) ?c' = Some (Inr ?b)" .
  moreover have "run (ucs_step cities d) ?c = run (ucs_step cities d) ?c'"
    using step by (subst run.simps) simp
  moreover have "run (ucs_step cities d) (ucs_init start) = run (ucs_step cities d) ?c"
    using r by (rule run_reaches)
  ultimately show ?thesis using c by (simp add: ucs_solve_def)
qed

lemma optimal_below_tours:
  assumes "optimal cities d b" "tour cities t"
  shows "snd b \<le> max 0 (max_edge d t)"
  using assms by (auto simp: optimal_def running_max_max0)

text \<open>
  C9 as stated does not hold: from the matrix with the jump \<open>2^63\<close> the table is built, the
  uniform-cost search pops the goal entry of the tour A, B, A with the key \<open>2^63\<close> while no
  tour is recorded, and the value it returns is \<^verbatim>\<open>sys.maxsize\<close>, with no tour.
\<close>

theorem ucs_first_goal_not_returned:
  "load_city_distances [''A'', ''B''] huge_matrix = Inr huge_table \<and>
   reaches (ucs_step [''A'', ''B''] huge_table) (ucs_init ''A'')
     ([(9223372036854775808, [''A'', ''B'', ''A''])], (None, maxsize)) \<and>
   is_goal [''A'', ''B''] [''A'', ''B'', ''A''] \<and>
   max_edge huge_table [''A'', ''B'', ''A''] = 9223372036854775808 \<and>
   ucs_solve [''A'', ''B''] huge_table = Some (Inr (None, maxsize)) \<and>
   maxsize = 9223372036854775807"
  by (intro conjI) (rule huge_load huge_ucs_reaches example_goal huge_max_edge huge_ucs
      maxsize_def)+

text \<open>
  C9, amended: in the uniform-cost search the frontier is kept in ascending order of its
  entries, whose key is the running maximum of the path (the maximum of 0 and its edge
  weights); after a pop every entry of the frontier, the successors just pushed included,
  has a key at least the key popped, so keys are popped in nondecreasing order. With a
  table that has an entry for every ordered pair of cities (as the table that the solver
  builds has), when a goal entry is popped while no tour is recorded, the search returns
  that entry's path and key if the key is below \<^verbatim>\<open>sys.maxsize\<close> and no tour with the value
  \<^verbatim>\<open>sys.maxsize\<close> otherwise, and the value returned is at most the running maximum of
  every tour.
\<close>

theorem ucs_pops_in_order:
  assumes "cities = start # rest"
  shows "(\<forall>c. reaches (ucs_step cities d) (ucs_init start) c \<longrightarrow>
            sorted (fst c) \<and>
            (\<forall>(max_jump, path) \<in> set (fst c). max_jump = max 0 (max_edge d path))) \<and>
         (\<forall>max_jump path frontier best c'.
            reaches (ucs_step cities d) (ucs_init start) ((max_jump, path) # frontier, best) \<and>
            ucs_step cities d ((max_jump, path) # frontier, best) = Continue c' \<longrightarrow>
            (\<forall>(max_jump', path') \<in> set (fst c'). max_jump \<le> max_jump')) \<and>
         (\<forall>max_jump path frontier.
            table_total cities d \<and>
            reaches (ucs_step cities d) (ucs_init start)
              ((max_jump, path) # frontier, (None, maxsize)) \<and>
            is_goal cities path \<longrightarrow>
            ucs_solve cities d =
              Some (Inr (if max_jump < maxsize then (Some path, max_jump) else (None, maxsize))) \<and>
            (\<forall>t. tour cities t \<longrightarrow> min max_jump maxsize \<le> max 0 (max_edge d t)))"
proof -
  from assms have ne: "cities \<noteq> []" by simp
  have S: "\<forall>c. reaches (ucs_step cities d) (ucs_init start) c \<longrightarrow>
      sorted (fst c) \<and> (\<forall>(max_jump, path) \<in> set (fst c). max_jump = max 0 (max_edge d path))"
  proof (intro allI impI conjI)
    fix c assume r: "reaches (ucs_step cities d) (ucs_init start) c"
    then show "sorted (fst c)" by (rule ucs_reaches_sorted)
    show "\<forall>(max_jump, path) \<in> set (fst c). max_jump = max 0 (max_edge d path)"
    proof (clarify)
      fix mj p assume "(mj, p) \<in> set (fst c)"
      with ucs_inv_pending [OF ucs_reaches_inv [OF assms r]]
      have "pending_ok cities d (ucs_abs ` set (fst c))" "(p, mj) \<in> ucs_abs ` set (fst c)"
        by blast+
      then show "mj = max 0 (max_edge d p)" by (rule pending_running)
    qed
  qed
  have P: "\<forall>max_jump path frontier best c'.
      reaches (ucs_step cities d) (ucs_init start) ((max_jump, path) # frontier, best) \<and>
      ucs_step cities d ((max_jump, path) # frontier, best) = Continue c' \<longrightarrow>
      (\<forall>(max_jump', path') \<in> set (fst c'). max_jump \<le> max_jump')"
  proof (intro allI impI, elim conjE)
    fix k p frontier best c'
    assume r: "reaches (ucs_step cities d) (ucs_init start) ((k, p) # frontier, best)"
      and s: "ucs_step cities d ((k, p) # frontier, best) = Continue c'"
    from ucs_reaches_sorted [OF r] have "sorted ((k, p) # frontier)" by simp
    then have "ucs_above k frontier" by (rule sorted_head_above)
    from ucs_step_above [OF ucs_reaches_inv [OF assms r] refl this s]
    show "\<forall>(max_jump', path') \<in> set (fst c'). k \<le> max_jump'"
      by (auto simp: ucs_above_def)
  qed
  have G: "\<forall>max_jump path frontier.
      table_total cities d \<and>
      reaches (ucs_step cities d) (ucs_init start) ((max_jump, path) # frontier, (None, maxsize)) \<and>
      is_goal cities path \<longrightarrow>
      ucs_solve cities d =
        Some (Inr (if max_jump < maxsize then (Some path, max_jump) else (None, maxsize))) \<and>
      (\<forall>t. tour cities t \<longrightarrow> min max_jump maxsize \<le> max 0 (max_edge d t))"
  proof (intro allI impI, elim conjE)
    fix k p frontier
    assume tot: "table_total cities d"
      and r: "reaches (ucs_step cities d) (ucs_init start) ((k, p) # frontier, (None, maxsize))"
      and g: "is_goal cities p"
    let ?b = "if k < maxsize then (Some p, k) else (None, maxsize)"
    from ucs_first_goal [OF assms tot r g]
    have res: "ucs_solve cities d = Some (Inr ?b)" .
    from solve_optimal [OF ne tot] res have o: "optimal cities d ?b" by auto
    have "snd ?b = min k maxsize" by simp
    with optimal_below_tours [OF o]
    have "\<forall>t. tour cities t \<longrightarrow> min k maxsize \<le> max 0 (max_edge d t)" by simp
    with res show "ucs_solve cities d = Some (Inr ?b) \<and>
        (\<forall>t. tour cities t \<longrightarrow> min k maxsize \<le> max 0 (max_edge d t))" by simp
  qed
  show ?thesis
    by (intro conjI) (rule S P G)+
qed

theorem ucs_pops_in_order_witness:
  "table_total [''A'', ''B''] example_table \<and>
   reaches (ucs_step [''A'', ''B''] example_table) (ucs_init ''A'')
     ([(2, [''A'', ''B'', ''A''])], (None, maxsize)) \<and>
   is_goal [''A'', ''B''] [''A'', ''B'', ''A''] \<and>
   tour [''A'', ''B''] [''A'', ''B'', ''A''] \<and>
   ucs_solve [''A'', ''B''] example_table = Some (Inr (Some [''A'', ''B'', ''A''], 2)) \<and>
   min 2 maxsize \<le> max 0 (max_edge example_table [''A'', ''B'', ''A''])"
proof -
  have k: "(2 :: int) < maxsize" by (simp add: maxsize_def)
  note th = ucs_pops_in_order [OF refl, of "''A''" "[''B'']" example_table]
  note g = th [THEN conjunct2, THEN conjunct2, rule_format,
    OF conjI [OF example_total conjI [OF example_ucs_reaches example_goal]]]
  from g k have res: "ucs_solve [''A'', ''B''] example_table = Some (Inr (Some [''A'', ''B'', ''A''], 2))"
    by simp
  from g example_tour
  have le: "min 2 maxsize \<le> max 0 (max_edge example_table [''A'', ''B'', ''A''])" by blast
  show ?thesis
    by (intro conjI) (rule example_total example_ucs_reaches example_goal example_tour res le)+
qed

end
